theory Spec2Isabelle
  imports Complex_Main "HOL-Library.Monad_Syntax" "HOL-Library.Multiset"
begin

section \<open>Values of type double\<close>

text \<open>
  A \<open>double\<close> of the solver is modelled by the value it denotes: a rational number, one
  of the two infinities, or NaN. The operations follow IEEE 754 on these values
  (\<open>inf - inf\<close>, \<open>0 * inf\<close> and \<open>inf / inf\<close> are NaN, every comparison with NaN is false).
  Rounding is not modelled: sums, products and quotients of finite values are exact.
  The two zeros are one value; a finite value divided by zero gives the infinity
  of the dividend's sign.
\<close>

datatype double = Fin rat | PInf | NInf | NaN

fun dneg :: "double \<Rightarrow> double" where
  "dneg (Fin q) = Fin (- q)"
| "dneg PInf = NInf"
| "dneg NInf = PInf"
| "dneg NaN = NaN"

fun dadd :: "double \<Rightarrow> double \<Rightarrow> double" where
  "dadd (Fin a) (Fin b) = Fin (a + b)"
| "dadd (Fin a) PInf = PInf"
| "dadd (Fin a) NInf = NInf"
| "dadd PInf (Fin b) = PInf"
| "dadd PInf PInf = PInf"
| "dadd PInf NInf = NaN"
| "dadd NInf (Fin b) = NInf"
| "dadd NInf PInf = NaN"
| "dadd NInf NInf = NInf"
| "dadd NaN y = NaN"
| "dadd x NaN = NaN"

definition dsub :: "double \<Rightarrow> double \<Rightarrow> double" where
  "dsub x y = dadd x (dneg y)"

text \<open>The sign of a value that is not NaN: \<open>1\<close>, \<open>0\<close> or \<open>-1\<close>.\<close>

fun dsgn :: "double \<Rightarrow> int" where
  "dsgn (Fin q) = (if q = 0 then 0 else if 0 < q then 1 else - 1)"
| "dsgn PInf = 1"
| "dsgn NInf = - 1"
| "dsgn NaN = 0"

definition inf_of_sign :: "int \<Rightarrow> double" where
  "inf_of_sign k = (if k = 0 then NaN else if 0 < k then PInf else NInf)"

fun dmul :: "double \<Rightarrow> double \<Rightarrow> double" where
  "dmul (Fin a) (Fin b) = Fin (a * b)"
| "dmul NaN y = NaN"
| "dmul x NaN = NaN"
| "dmul x y = inf_of_sign (dsgn x * dsgn y)"

fun ddiv :: "double \<Rightarrow> double \<Rightarrow> double" where
  "ddiv (Fin a) (Fin b) = (if b = 0 then inf_of_sign (dsgn (Fin a)) else Fin (a / b))"
| "ddiv NaN y = NaN"
| "ddiv x NaN = NaN"
| "ddiv (Fin a) y = Fin 0"
| "ddiv x (Fin b) = inf_of_sign (dsgn x * (if b < 0 then - 1 else 1))"
| "ddiv x y = NaN"

fun dlt :: "double \<Rightarrow> double \<Rightarrow> bool" where
  "dlt (Fin a) (Fin b) = (a < b)"
| "dlt NaN y = False"
| "dlt x NaN = False"
| "dlt x NInf = False"
| "dlt PInf y = False"
| "dlt x y = True"

fun dle :: "double \<Rightarrow> double \<Rightarrow> bool" where
  "dle (Fin a) (Fin b) = (a \<le> b)"
| "dle NaN y = False"
| "dle x NaN = False"
| "dle NInf y = True"
| "dle x PInf = True"
| "dle x y = False"

fun dabs :: "double \<Rightarrow> double" where
  "dabs (Fin q) = Fin \<bar>q\<bar>"
| "dabs PInf = PInf"
| "dabs NInf = PInf"
| "dabs NaN = NaN"

text \<open>\<open>round\<close> of the C library rounds halfway cases away from zero.\<close>

fun dround :: "double \<Rightarrow> double" where
  "dround (Fin q) =
     Fin (of_int (if 0 \<le> q then \<lfloor>q + 1 / 2\<rfloor> else \<lceil>q - 1 / 2\<rceil>))"
| "dround x = x"

fun dfloor :: "double \<Rightarrow> double" where
  "dfloor (Fin q) = Fin (of_int \<lfloor>q\<rfloor>)"
| "dfloor x = x"

fun disinf :: "double \<Rightarrow> bool" where
  "disinf PInf = True"
| "disinf NInf = True"
| "disinf x = False"

definition FP64_INF :: double where
  "FP64_INF = PInf"

definition FP64_NAN :: double where
  "FP64_NAN = NaN"

subsection \<open>class FOP\<close>

definition EPS :: double where
  "EPS = Fin (1 / 10000)"

definition isInt :: "double \<Rightarrow> bool" where
  "isInt x = dle (dabs (dsub x (dround x))) EPS"

definition isZero :: "double \<Rightarrow> bool" where
  "isZero x = dle (dabs x) EPS"

definition isPos :: "double \<Rightarrow> bool" where
  "isPos x = dle EPS x"

section \<open>Vectors and unsigned arithmetic\<close>

text \<open>
  A \<open>std::vector\<close> is a list. An access outside the vector is undefined behaviour in
  C++; here every such access gives \<open>None\<close>, and so does every function that runs into
  one. A loop that does not terminate gives \<open>None\<close> as well, so \<open>Some\<close> is a run of the
  program that ends with every access in range.
\<close>

definition vget :: "'a list \<Rightarrow> nat \<Rightarrow> 'a option" where
  "vget xs i = (if i < length xs then Some (xs ! i) else None)"

definition vset :: "'a list \<Rightarrow> nat \<Rightarrow> 'a \<Rightarrow> 'a list option" where
  "vset xs i v = (if i < length xs then Some (xs[i := v]) else None)"

text \<open>
  The value of a \<open>uint32_t\<close> expression: the integer result modulo \<open>2 ^ 32\<close>. It is
  written wherever the source subtracts unsigned numbers or converts an \<open>int32_t\<close>.
\<close>

definition u32 :: "int \<Rightarrow> nat" where
  "u32 x = nat (x mod 2 ^ 32)"

text \<open>A \<open>for\<close> loop over the given indices, threading the state, stopping at a failure.\<close>

fun for_each :: "'a list \<Rightarrow> ('a \<Rightarrow> 's \<Rightarrow> 's option) \<Rightarrow> 's \<Rightarrow> 's option" where
  "for_each [] body s = Some s"
| "for_each (x # xs) body s =
     (case body x s of None \<Rightarrow> None | Some s' \<Rightarrow> for_each xs body s')"

section \<open>Linear forms and constraints\<close>

datatype Relation = LEQ | EQ | GEQ

text \<open>
  \<open>terms\<close> is an \<open>unordered_map\<close> from variable index to coefficient: an association
  list with one entry for each key, visited in the order of the list.
\<close>

record Linearform =
  terms :: "(nat \<times> double) list"

fun terms_add :: "double \<Rightarrow> nat \<Rightarrow> (nat \<times> double) list \<Rightarrow> (nat \<times> double) list" where
  "terms_add coef varIndex [] = [(varIndex, coef)]"
| "terms_add coef varIndex ((k, c) # ts) =
     (if k = varIndex then (k, dadd c coef) # ts else (k, c) # terms_add coef varIndex ts)"

definition Linearform_new :: Linearform where
  "Linearform_new = \<lparr>terms = []\<rparr>"

definition Linearform_add :: "double \<Rightarrow> nat \<Rightarrow> Linearform \<Rightarrow> Linearform" where
  "Linearform_add coef varIndex lf = lf\<lparr>terms := terms_add coef varIndex (terms lf)\<rparr>"

definition Linearform_negate :: "Linearform \<Rightarrow> Linearform" where
  "Linearform_negate lf = lf\<lparr>terms := map (\<lambda>(k, c). (k, dneg c)) (terms lf)\<rparr>"

record Constraint =
  linearform :: Linearform
  relation :: Relation
  rightConst :: double

definition Constraint_new :: Constraint where
  "Constraint_new = \<lparr>linearform = Linearform_new, relation = EQ, rightConst = Fin 0\<rparr>"

definition Constraint_add :: "double \<Rightarrow> nat \<Rightarrow> Constraint \<Rightarrow> Constraint" where
  "Constraint_add coef varIndex con =
     con\<lparr>linearform := Linearform_add coef varIndex (linearform con)\<rparr>"

definition leq :: "double \<Rightarrow> Constraint \<Rightarrow> Constraint" where
  "leq r con = con\<lparr>relation := LEQ, rightConst := r\<rparr>"

definition eq :: "double \<Rightarrow> Constraint \<Rightarrow> Constraint" where
  "eq r con = con\<lparr>relation := EQ, rightConst := r\<rparr>"

definition geq :: "double \<Rightarrow> Constraint \<Rightarrow> Constraint" where
  "geq r con = con\<lparr>relation := GEQ, rightConst := r\<rparr>"

definition getTerms :: "Constraint \<Rightarrow> (nat \<times> double) list" where
  "getTerms con = terms (linearform con)"

definition getRightConst :: "Constraint \<Rightarrow> double" where
  "getRightConst con = rightConst con"

definition stdOfNegativeRightConst :: "Constraint \<Rightarrow> Constraint" where
  "stdOfNegativeRightConst con =
     (if dle (Fin 0) (rightConst con) then con
      else con\<lparr>rightConst := dneg (rightConst con),
               linearform := Linearform_negate (linearform con),
               relation := (case relation con of LEQ \<Rightarrow> GEQ | GEQ \<Rightarrow> LEQ | EQ \<Rightarrow> EQ)\<rparr>)"

definition haveSlackVar :: "Constraint \<Rightarrow> bool" where
  "haveSlackVar con = (relation con \<noteq> EQ)"

definition getSlackVarCoef :: "Constraint \<Rightarrow> double" where
  "getSlackVarCoef con =
     (case relation con of LEQ \<Rightarrow> Fin 1 | GEQ \<Rightarrow> Fin (- 1) | EQ \<Rightarrow> Fin 0)"

definition haveArtificialVar :: "Constraint \<Rightarrow> bool" where
  "haveArtificialVar con = (relation con \<noteq> LEQ)"

section \<open>The tableau\<close>

text \<open>
  \<open>arr\<close> is the flattened matrix, \<open>baseVarIndexs\<close> holds an \<open>int32_t\<close> for each row,
  \<open>-1\<close> for an artificial variable. The cell \<open>(i, j)\<close> is \<open>arr[cols * i + j]\<close>, the
  index computed in \<open>uint32_t\<close>.
\<close>

record Tableau =
  arr :: "double list"
  rows :: nat
  cols :: nat
  baseVarIndexs :: "int list"

definition cell :: "Tableau \<Rightarrow> nat \<Rightarrow> nat \<Rightarrow> nat" where
  "cell t i j = u32 (int (cols t * i + j))"

definition tab :: "Tableau \<Rightarrow> nat \<Rightarrow> nat \<Rightarrow> double option" where
  "tab t i j = vget (arr t) (cell t i j)"

definition tab_set :: "Tableau \<Rightarrow> nat \<Rightarrow> nat \<Rightarrow> double \<Rightarrow> Tableau option" where
  "tab_set t i j v = map_option (\<lambda>a. t\<lparr>arr := a\<rparr>) (vset (arr t) (cell t i j) v)"

definition init :: "nat \<Rightarrow> nat \<Rightarrow> Tableau" where
  "init r c = \<lparr>arr = replicate (r * c) (Fin 0), rows = r, cols = c,
               baseVarIndexs = replicate r 0\<rparr>"

definition scaleRow :: "nat \<Rightarrow> double \<Rightarrow> Tableau \<Rightarrow> Tableau option" where
  "scaleRow i s t =
     for_each [0..<cols t]
       (\<lambda>k t. do { x \<leftarrow> tab t i k; tab_set t i k (ddiv x s) }) t"

definition addRowToRow :: "nat \<Rightarrow> nat \<Rightarrow> double \<Rightarrow> Tableau \<Rightarrow> Tableau option" where
  "addRowToRow i j s t =
     for_each [0..<cols t]
       (\<lambda>k t. do { x \<leftarrow> tab t i k; y \<leftarrow> tab t j k; tab_set t j k (dadd y (dmul x s)) }) t"

text \<open>
  \<open>elimination\<close> on its scalar path (\<open>enableMatrixEliminationParallel\<close> is false, its
  initial value).
\<close>

definition elimination :: "nat \<Rightarrow> nat \<Rightarrow> Tableau \<Rightarrow> Tableau option" where
  "elimination i j t = do {
     aij \<leftarrow> tab t i j;
     t1 \<leftarrow> for_each [0..<rows t]
       (\<lambda>k t. if k \<noteq> i then do { akj \<leftarrow> tab t k j; addRowToRow i k (ddiv (dneg akj) aij) t }
               else Some t) t;
     t2 \<leftarrow> for_each [0..<rows t1]
       (\<lambda>k t. if k \<noteq> i then tab_set t k j (Fin 0) else Some t) t1;
     scaleRow i aij t2
   }"

section \<open>class LP\<close>

datatype LP_Type = LP_BOUNDED | LP_UNBOUNDED | LP_INFEASIBLE

text \<open>
  The fields of an \<open>LP\<close> object. The methods below take the object and return it
  changed. Row and column numbers are far below \<open>2 ^ 31\<close>, so their conversions between
  \<open>uint32_t\<close> and \<open>int32_t\<close> are the identity; the conversion of a basis entry, which
  may be \<open>-1\<close>, is written out with \<open>u32\<close>.
\<close>

record LP =
  tableau :: Tableau
  isMin :: bool
  objFunc :: Linearform
  multiCon :: "Constraint list"
  varCount :: nat
  varRangeMultiCon :: "Constraint list"
  solutionType :: LP_Type
  solution :: "double list"
  unboundedDirection :: "double list"
  extremum :: double

text \<open>
  The loop of \<open>findNewBaseVarIndex\<close> from column \<open>j\<close> on. Its bound \<open>cols - 2\<close> is
  computed in \<open>uint32_t\<close>.
\<close>

function findNewBaseVarIndex_from :: "Tableau \<Rightarrow> nat \<Rightarrow> int option" where
  "findNewBaseVarIndex_from t j =
     (if j \<le> u32 (int (cols t) - 2) then
        (case tab t 0 j of
           None \<Rightarrow> None
         | Some x \<Rightarrow> if isPos x then Some (int j) else findNewBaseVarIndex_from t (j + 1))
      else Some (- 1))"
  by pat_completeness auto
termination
  by (relation "measure (\<lambda>(t, j). u32 (int (cols t) - 2) + 1 - j)") auto

definition findNewBaseVarIndex :: "LP \<Rightarrow> int option" where
  "findNewBaseVarIndex lp = findNewBaseVarIndex_from (tableau lp) 0"

text \<open>
  The body of the loop of \<open>findMinPosRatioRowIndex\<close>, for row \<open>i\<close>; the state is
  \<open>minPosRatio\<close> and \<open>minPosRatioRowIndex\<close>.
\<close>

definition findMinPosRatioRowIndex_row ::
  "nat \<Rightarrow> LP \<Rightarrow> nat \<Rightarrow> double \<times> int \<Rightarrow> (double \<times> int) option" where
  "findMinPosRatioRowIndex_row baseVarIndex lp i = (\<lambda>(minPosRatio, minPosRatioRowIndex). do {
     a \<leftarrow> tab (tableau lp) i baseVarIndex;
     if isPos a then do {
       r \<leftarrow> tab (tableau lp) i (u32 (int (cols (tableau lp)) - 1));
       let ratio = ddiv r a;
       if dlt ratio minPosRatio then Some (ratio, int i)
       else Some (minPosRatio, minPosRatioRowIndex)
     } else Some (minPosRatio, minPosRatioRowIndex)
   })"

definition findMinPosRatioRowIndex :: "nat \<Rightarrow> LP \<Rightarrow> int option" where
  "findMinPosRatioRowIndex baseVarIndex lp = do {
     (minPosRatio, minPosRatioRowIndex) \<leftarrow>
       for_each [1..<rows (tableau lp)] (findMinPosRatioRowIndex_row baseVarIndex lp)
         (Fin (10 ^ 300), - 1);
     Some minPosRatioRowIndex
   }"

fun isArtificial_from :: "int list \<Rightarrow> nat list \<Rightarrow> bool option" where
  "isArtificial_from b [] = Some False"
| "isArtificial_from b (i # is) =
     (case vget b i of
        None \<Rightarrow> None
      | Some v \<Rightarrow> if v = - 1 then Some True else isArtificial_from b is)"

definition isTableauHaveArtificialVar :: "LP \<Rightarrow> bool option" where
  "isTableauHaveArtificialVar lp =
     isArtificial_from (baseVarIndexs (tableau lp)) [1..<rows (tableau lp)]"

text \<open>The body of the loop of \<open>handleUnbound\<close>, for row \<open>i\<close>.\<close>

definition handleUnbound_row :: "nat \<Rightarrow> nat \<Rightarrow> LP \<Rightarrow> LP option" where
  "handleUnbound_row newBaseVarIndex i lp = do {
     b \<leftarrow> vget (baseVarIndexs (tableau lp)) i;
     let baseVarIndex = u32 b;
     if baseVarIndex \<le> u32 (int (varCount lp) - 1) then do {
       r \<leftarrow> tab (tableau lp) i (u32 (int (cols (tableau lp)) - 1));
       sol \<leftarrow> vset (solution lp) baseVarIndex r;
       a \<leftarrow> tab (tableau lp) i newBaseVarIndex;
       dir \<leftarrow> vset (unboundedDirection lp) baseVarIndex
                (dmul a (Fin (if isMin lp then 1 else - 1)));
       Some (lp\<lparr>solution := sol, unboundedDirection := dir\<rparr>)
     } else Some lp
   }"

definition handleUnbound :: "nat \<Rightarrow> LP \<Rightarrow> LP option" where
  "handleUnbound newBaseVarIndex lp0 = do {
     let lp1 = lp0\<lparr>solutionType := LP_UNBOUNDED,
                   solution := replicate (varCount lp0) (Fin 0),
                   unboundedDirection := replicate (varCount lp0) (Fin 0)\<rparr>;
     lp2 \<leftarrow> for_each [1..<rows (tableau lp1)] (handleUnbound_row newBaseVarIndex) lp1;
     Some (lp2\<lparr>extremum := (if isMin lp2 then dneg FP64_INF else FP64_INF)\<rparr>)
   }"

text \<open>
  The \<open>while (true)\<close> loop of the driver together with the two lines after it. A run
  that pivots for ever has no result.
\<close>

partial_function (option) runMinSimplexMethod :: "LP \<Rightarrow> (bool \<times> LP) option" where
  "runMinSimplexMethod lp = do {
     newBaseVarIndex \<leftarrow> findNewBaseVarIndex lp;
     if newBaseVarIndex = - 1 then do {
       a \<leftarrow> isTableauHaveArtificialVar lp;
       if a then Some (False, lp) else Some (True, lp)
     } else do {
       rowIndex \<leftarrow> findMinPosRatioRowIndex (u32 newBaseVarIndex) lp;
       if rowIndex = - 1 then do {
         lp' \<leftarrow> handleUnbound (u32 newBaseVarIndex) lp;
         Some (False, lp')
       } else do {
         t \<leftarrow> elimination (u32 rowIndex) (u32 newBaseVarIndex) (tableau lp);
         b \<leftarrow> vset (baseVarIndexs t) (nat rowIndex) newBaseVarIndex;
         runMinSimplexMethod (lp\<lparr>tableau := t\<lparr>baseVarIndexs := b\<rparr>\<rparr>)
       }
     }
   }"

declare runMinSimplexMethod.simps [code]

definition initTableau :: "LP \<Rightarrow> LP" where
  "initTableau lp =
     (let slackVarCount =
            fold (\<lambda>con n. if haveSlackVar con then n + 1 else n) (varRangeMultiCon lp)
              (fold (\<lambda>con n. if haveSlackVar con then n + 1 else n) (multiCon lp) 0)
      in lp\<lparr>tableau := init (1 + length (multiCon lp) + length (varRangeMultiCon lp))
                           (varCount lp + slackVarCount + 1)\<rparr>)"

text \<open>
  The lambda \<open>setTableauRow\<close> of \<open>insertConToTableau\<close>; it captures the tableau,
  \<open>rowIndex\<close> and \<open>slackVarColIndex\<close>.
\<close>

definition setTableauRow ::
  "Constraint \<Rightarrow> Tableau \<times> nat \<times> nat \<Rightarrow> (Tableau \<times> nat \<times> nat) option" where
  "setTableauRow con = (\<lambda>(t0, rowIndex, slackVarColIndex0). do {
     t1 \<leftarrow> for_each (getTerms con)
             (\<lambda>(varIndex, coef) t. tab_set t rowIndex varIndex coef) t0;
     (t2, slackVarColIndex) \<leftarrow>
       (if haveSlackVar con then do {
          let s = u32 (int slackVarColIndex0 + 1);
          t \<leftarrow> tab_set t1 rowIndex s (getSlackVarCoef con);
          Some (t, s)
        } else Some (t1, slackVarColIndex0));
     t3 \<leftarrow> tab_set t2 rowIndex (u32 (int (cols t2) - 1)) (getRightConst con);
     b \<leftarrow> vset (baseVarIndexs t3) rowIndex
            (if haveArtificialVar con then - 1 else int slackVarColIndex);
     Some (t3\<lparr>baseVarIndexs := b\<rparr>, rowIndex + 1, slackVarColIndex)
   })"

definition insertConToTableau :: "LP \<Rightarrow> LP option" where
  "insertConToTableau lp = do {
     st1 \<leftarrow> for_each (multiCon lp) setTableauRow
              (tableau lp, 1, u32 (int (varCount lp) - 1));
     (t, rowIndex, slackVarColIndex) \<leftarrow> for_each (varRangeMultiCon lp) setTableauRow st1;
     Some (lp\<lparr>tableau := t\<rparr>)
   }"

text \<open>The first loop of \<open>checkInfeasible\<close>: every artificial row is added to row 0.\<close>

definition addArtificialRows :: "Tableau \<Rightarrow> Tableau option" where
  "addArtificialRows t0 =
     for_each [1..<rows t0]
       (\<lambda>i t. do {
          b \<leftarrow> vget (baseVarIndexs t) i;
          if b = - 1 then addRowToRow i 0 (Fin 1) t else Some t
        }) t0"

definition checkInfeasible :: "LP \<Rightarrow> (bool \<times> LP) option" where
  "checkInfeasible lp = do {
     a \<leftarrow> isTableauHaveArtificialVar lp;
     if \<not> a then Some (True, lp)
     else do {
       t \<leftarrow> addArtificialRows (tableau lp);
       (ok, lp1) \<leftarrow> runMinSimplexMethod (lp\<lparr>tableau := t\<rparr>);
       if \<not> ok then Some (False, lp1)
       else do {
         t' \<leftarrow> for_each [0..<cols (tableau lp1)] (\<lambda>j t. tab_set t 0 j (Fin 0)) (tableau lp1);
         Some (True, lp1\<lparr>tableau := t'\<rparr>)
       }
     }
   }"

definition insertObjFuncToTableau :: "LP \<Rightarrow> LP option" where
  "insertObjFuncToTableau lp = do {
     t \<leftarrow> for_each (terms (objFunc lp))
            (\<lambda>(varIndex, coef) t.
               tab_set t 0 varIndex (dmul coef (Fin (if isMin lp then - 1 else 1))))
            (tableau lp);
     Some (lp\<lparr>tableau := t\<rparr>)
   }"

definition handleNonZeroHead :: "LP \<Rightarrow> LP option" where
  "handleNonZeroHead lp = do {
     t \<leftarrow> for_each [1..<rows (tableau lp)]
            (\<lambda>i t. do {
               b \<leftarrow> vget (baseVarIndexs t) i;
               let baseVarIndex = u32 b;
               h \<leftarrow> tab t 0 baseVarIndex;
               if \<not> isZero h then addRowToRow i 0 (dneg h) t else Some t
             }) (tableau lp);
     Some (lp\<lparr>tableau := t\<rparr>)
   }"

text \<open>The body of the loop of \<open>handleBound\<close>, for row \<open>i\<close>.\<close>

definition handleBound_row :: "nat \<Rightarrow> LP \<Rightarrow> LP option" where
  "handleBound_row i lp = do {
     b \<leftarrow> vget (baseVarIndexs (tableau lp)) i;
     let baseVarIndex = u32 b;
     if baseVarIndex \<le> u32 (int (varCount lp) - 1) then do {
       r \<leftarrow> tab (tableau lp) i (u32 (int (cols (tableau lp)) - 1));
       sol \<leftarrow> vset (solution lp) baseVarIndex r;
       Some (lp\<lparr>solution := sol\<rparr>)
     } else Some lp
   }"

definition handleBound :: "LP \<Rightarrow> LP option" where
  "handleBound lp0 = do {
     let lp1 = lp0\<lparr>solutionType := LP_BOUNDED,
                   solution := replicate (varCount lp0) (Fin 0)\<rparr>;
     lp2 \<leftarrow> for_each [1..<rows (tableau lp1)] handleBound_row lp1;
     e \<leftarrow> tab (tableau lp2) 0 (u32 (int (cols (tableau lp2)) - 1));
     Some (lp2\<lparr>extremum := dmul e (Fin (if isMin lp2 then 1 else - 1))\<rparr>)
   }"

text \<open>The loop of the constructor that turns the variable ranges into constraints.\<close>

fun rangeCons :: "nat \<Rightarrow> (double \<times> double) list \<Rightarrow> Constraint list" where
  "rangeCons i [] = []"
| "rangeCons i ((varMin, varMax) # rs) =
     (if dlt (Fin 0) varMin then [geq varMin (Constraint_add (Fin 1) i Constraint_new)] else [])
     @ (if \<not> disinf varMax then [leq varMax (Constraint_add (Fin 1) i Constraint_new)] else [])
     @ rangeCons (i + 1) rs"

text \<open>
  The object as the constructor has it before \<open>initTableau\<close>. The source leaves
  \<open>solutionType\<close> and \<open>extremum\<close> uninitialised here and assigns both on every path
  of the constructor; the two vectors are empty.
\<close>

definition LP_fields ::
  "bool \<Rightarrow> Linearform \<Rightarrow> Constraint list \<Rightarrow> (double \<times> double) list \<Rightarrow> LP" where
  "LP_fields isMin' objFunc' multiCon' varRange =
     \<lparr>tableau = init 0 0, isMin = isMin', objFunc = objFunc', multiCon = multiCon',
      varCount = length varRange, varRangeMultiCon = rangeCons 0 varRange,
      solutionType = LP_BOUNDED, solution = [], unboundedDirection = [],
      extremum = Fin 0\<rparr>"

text \<open>The tableau as built: after \<open>initTableau\<close> and \<open>insertConToTableau\<close>.\<close>

definition LP_build ::
  "bool \<Rightarrow> Linearform \<Rightarrow> Constraint list \<Rightarrow> (double \<times> double) list \<Rightarrow> LP option" where
  "LP_build isMin' objFunc' multiCon' varRange =
     insertConToTableau (initTableau (LP_fields isMin' objFunc' multiCon' varRange))"

text \<open>The constructor \<open>LP::LP\<close>: it solves the problem.\<close>

definition LP_new ::
  "bool \<Rightarrow> Linearform \<Rightarrow> Constraint list \<Rightarrow> (double \<times> double) list \<Rightarrow> LP option" where
  "LP_new isMin' objFunc' multiCon' varRange = do {
     lp0 \<leftarrow> LP_build isMin' objFunc' multiCon' varRange;
     (feasible, lp1) \<leftarrow> checkInfeasible lp0;
     if \<not> feasible then Some (lp1\<lparr>solutionType := LP_INFEASIBLE, extremum := FP64_NAN\<rparr>)
     else do {
       lp2 \<leftarrow> insertObjFuncToTableau lp1;
       lp3 \<leftarrow> handleNonZeroHead lp2;
       (bounded, lp4) \<leftarrow> runMinSimplexMethod lp3;
       if bounded then handleBound lp4 else Some lp4
     }
   }"

text \<open>
  The object when the driver starts its run of phase 2: the constructor up to
  \<open>handleNonZeroHead\<close>, on the path where \<open>checkInfeasible\<close> returns true.
\<close>

definition LP_phase2_start ::
  "bool \<Rightarrow> Linearform \<Rightarrow> Constraint list \<Rightarrow> (double \<times> double) list \<Rightarrow> LP option" where
  "LP_phase2_start isMin' objFunc' multiCon' varRange = do {
     lp0 \<leftarrow> LP_build isMin' objFunc' multiCon' varRange;
     (feasible, lp1) \<leftarrow> checkInfeasible lp0;
     if \<not> feasible then None
     else do {
       lp2 \<leftarrow> insertObjFuncToTableau lp1;
       handleNonZeroHead lp2
     }
   }"

section \<open>std::priority_queue\<close>

text \<open>
  \<open>std::priority_queue\<close> keeps its elements in a vector arranged as a binary heap:
  \<open>push\<close> is \<open>push_back\<close> followed by \<open>std::push_heap\<close>, \<open>pop\<close> is \<open>std::pop_heap\<close>
  followed by \<open>pop_back\<close>, \<open>top\<close> is \<open>front\<close>. The heap functions are those of the GNU
  C++ library, with which the Makefile builds the solver: \<open>__push_heap\<close> moves a hole
  up from \<open>holeIndex\<close>, \<open>__adjust_heap\<close> moves it down to a leaf and then pushes the
  value up again. The comparator \<open>cf a b\<close> says that \<open>a\<close> comes after \<open>b\<close>.
\<close>

function push_heap_loop :: "('a \<Rightarrow> 'a \<Rightarrow> bool) \<Rightarrow> 'a list \<Rightarrow> nat \<Rightarrow> nat \<Rightarrow> 'a \<Rightarrow> 'a list" where
  "push_heap_loop cf xs holeIndex topIndex v =
     (let parent = (holeIndex - 1) div 2 in
      if holeIndex > topIndex \<and> cf (xs ! parent) v
      then push_heap_loop cf (xs[holeIndex := xs ! parent]) parent topIndex v
      else xs[holeIndex := v])"
  by pat_completeness auto
termination
  by (relation "measure (\<lambda>(cf, xs, holeIndex, topIndex, v). holeIndex)") auto

declare push_heap_loop.simps [simp del]

definition push_heap :: "('a \<Rightarrow> 'a \<Rightarrow> bool) \<Rightarrow> 'a list \<Rightarrow> 'a list" where
  "push_heap cf xs = push_heap_loop cf xs (length xs - 1) 0 (xs ! (length xs - 1))"

function adjust_heap_loop ::
  "('a \<Rightarrow> 'a \<Rightarrow> bool) \<Rightarrow> 'a list \<Rightarrow> nat \<Rightarrow> nat \<Rightarrow> nat \<Rightarrow> 'a list \<times> nat \<times> nat" where
  "adjust_heap_loop cf xs holeIndex secondChild len =
     (if secondChild < (len - 1) div 2 then
        (let sc = 2 * (secondChild + 1);
             sc' = (if cf (xs ! sc) (xs ! (sc - 1)) then sc - 1 else sc)
         in adjust_heap_loop cf (xs[holeIndex := xs ! sc']) sc' sc' len)
      else (xs, holeIndex, secondChild))"
  by pat_completeness auto
termination
  by (relation "measure (\<lambda>(cf, xs, holeIndex, secondChild, len). len - secondChild)") auto

declare adjust_heap_loop.simps [simp del]

definition adjust_heap :: "('a \<Rightarrow> 'a \<Rightarrow> bool) \<Rightarrow> 'a list \<Rightarrow> nat \<Rightarrow> nat \<Rightarrow> 'a \<Rightarrow> 'a list" where
  "adjust_heap cf xs holeIndex len v =
     (let topIndex = holeIndex;
          (xs1, hole1, sc1) = adjust_heap_loop cf xs holeIndex holeIndex len;
          (xs2, hole2) =
            (if even len \<and> sc1 = (len - 2) div 2
             then (let sc = 2 * (sc1 + 1) in (xs1[hole1 := xs1 ! (sc - 1)], sc - 1))
             else (xs1, hole1))
      in push_heap_loop cf xs2 hole2 topIndex v)"

definition pop_heap :: "('a \<Rightarrow> 'a \<Rightarrow> bool) \<Rightarrow> 'a list \<Rightarrow> 'a list" where
  "pop_heap cf xs =
     (if length xs > 1 then
        (let last = length xs - 1; v = xs ! last
         in adjust_heap cf (xs[last := xs ! 0]) 0 last v)
      else xs)"

definition pq_push :: "('a \<Rightarrow> 'a \<Rightarrow> bool) \<Rightarrow> 'a \<Rightarrow> 'a list \<Rightarrow> 'a list" where
  "pq_push cf x q = push_heap cf (q @ [x])"

definition pq_pop :: "('a \<Rightarrow> 'a \<Rightarrow> bool) \<Rightarrow> 'a list \<Rightarrow> 'a list" where
  "pq_pop cf q = butlast (pop_heap cf q)"

definition pq_top :: "'a list \<Rightarrow> 'a option" where
  "pq_top q = vget q 0"

section \<open>class IP\<close>

subsection \<open>class VarBimap\<close>

record VarBimap =
  strToIndex :: "(string \<times> nat) list"
  indexToStr :: "string list"

definition getVarCount :: "VarBimap \<Rightarrow> nat" where
  "getVarCount bm = length (indexToStr bm)"

definition getVarIndex :: "string \<Rightarrow> VarBimap \<Rightarrow> nat \<times> VarBimap" where
  "getVarIndex varName bm =
     (case map_of (strToIndex bm) varName of
        Some j \<Rightarrow> (j, bm)
      | None \<Rightarrow>
          (let newVarIndex = getVarCount bm
           in (newVarIndex,
               bm\<lparr>strToIndex := strToIndex bm @ [(varName, newVarIndex)],
                  indexToStr := indexToStr bm @ [varName]\<rparr>)))"

subsection \<open>class IP::Node\<close>

datatype Node_Type = IP_FEASIBLE | LP_FEASIBLE | NODE_INFEASIBLE | NODE_UNBOUNDED

record Node =
  node_solution :: "double list"
  lowerBound :: double
  node_type :: Node_Type
  varRangeLeft :: "(double \<times> double) list"
  varRangeRight :: "(double \<times> double) list"

fun getSplitVarIndex_from :: "double list \<Rightarrow> nat \<Rightarrow> int" where
  "getSplitVarIndex_from [] i = - 1"
| "getSplitVarIndex_from (x # xs) i =
     (if \<not> isInt x then int i else getSplitVarIndex_from xs (i + 1))"

definition getSplitVarIndex :: "LP \<Rightarrow> int" where
  "getSplitVarIndex lp = getSplitVarIndex_from (solution lp) 0"

definition getSplitValue :: "double \<times> double \<Rightarrow> double \<Rightarrow> double" where
  "getSplitValue varRange varSolution = varSolution"

definition cmp :: "Node \<Rightarrow> Node \<Rightarrow> bool" where
  "cmp a b = dlt (lowerBound b) (lowerBound a)"

text \<open>
  The constructor \<open>Node::Node\<close>. The source leaves \<open>type\<close> uninitialised and assigns
  it in each branch.
\<close>

definition Node_new ::
  "Linearform \<Rightarrow> Constraint list \<Rightarrow> (double \<times> double) list \<Rightarrow> Node option" where
  "Node_new objFunc' multiCon' varRange = do {
     lp \<leftarrow> LP_new True objFunc' multiCon' varRange;
     let nd = \<lparr>node_solution = solution lp, lowerBound = extremum lp,
               node_type = NODE_INFEASIBLE, varRangeLeft = [], varRangeRight = []\<rparr>;
     case solutionType lp of
       LP_INFEASIBLE \<Rightarrow> Some (nd\<lparr>node_type := NODE_INFEASIBLE\<rparr>)
     | LP_UNBOUNDED \<Rightarrow> Some (nd\<lparr>node_type := NODE_UNBOUNDED\<rparr>)
     | LP_BOUNDED \<Rightarrow>
         (let splitVarIndex = getSplitVarIndex lp in
          if splitVarIndex = - 1 then Some (nd\<lparr>node_type := IP_FEASIBLE\<rparr>)
          else do {
            rangeL \<leftarrow> vget varRange (nat splitVarIndex);
            sol \<leftarrow> vget (solution lp) (nat splitVarIndex);
            let splitValue = dfloor (getSplitValue rangeL sol);
            left \<leftarrow> vset varRange (nat splitVarIndex) (fst rangeL, splitValue);
            rangeR \<leftarrow> vget varRange (nat splitVarIndex);
            right \<leftarrow> vset varRange (nat splitVarIndex)
                       (dadd splitValue (Fin 1), snd rangeR);
            Some (nd\<lparr>node_type := LP_FEASIBLE, varRangeLeft := left,
                     varRangeRight := right\<rparr>)
          })
   }"

subsection \<open>The solver\<close>

datatype IP_Type = IP_BOUNDED | IP_INFEASIBLE | IP_UNBOUNDED

text \<open>
  The fields of an \<open>IP\<close> object; \<open>nodeQueue\<close> is the vector under the priority queue.
  \<open>lastTimePrintNodeInfo\<close> is left out: it is read only after the \<open>return\<close> of
  \<open>checkNode\<close>.
\<close>

record IP =
  ip_isMin :: bool
  ip_objFunc :: Linearform
  ip_multiCon :: "Constraint list"
  bimap :: VarBimap
  nodeQueue :: "Node list"
  objValueUpperBound :: double
  nodeSolvedCount :: nat
  ip_solutionType :: IP_Type
  ip_solution :: "double list"
  ip_extremum :: double

text \<open>The loops of the constructor and of \<open>addConstraint\<close> over the named terms.\<close>

fun add_terms ::
  "(double \<times> string) list \<Rightarrow> Linearform \<times> VarBimap \<Rightarrow> Linearform \<times> VarBimap" where
  "add_terms [] (lf, bm) = (lf, bm)"
| "add_terms ((coef, varName) # ts) (lf, bm) =
     (let (j, bm') = getVarIndex varName bm
      in add_terms ts (Linearform_add coef j lf, bm'))"

text \<open>The constructor \<open>IP::IP\<close>; \<open>extremum\<close> is uninitialised until \<open>solve\<close> assigns it.\<close>

definition IP_new :: "string \<Rightarrow> (double \<times> string) list \<Rightarrow> IP" where
  "IP_new mode ts =
     (let (lf, bm) = add_terms ts (Linearform_new, \<lparr>strToIndex = [], indexToStr = []\<rparr>)
      in \<lparr>ip_isMin = (mode = ''min''), ip_objFunc = lf, ip_multiCon = [], bimap = bm,
          nodeQueue = [], objValueUpperBound = FP64_INF, nodeSolvedCount = 0,
          ip_solutionType = IP_INFEASIBLE, ip_solution = [], ip_extremum = Fin 0\<rparr>)"

definition addConstraint :: "(double \<times> string) list \<Rightarrow> string \<Rightarrow> double \<Rightarrow> IP \<Rightarrow> IP" where
  "addConstraint ts mode r ip =
     (let (lf, bm) = add_terms ts (Linearform_new, bimap ip);
          con0 = Constraint_new\<lparr>linearform := lf\<rparr>;
          con1 = (if mode = ''<='' then leq r con0
                  else if mode = ''>='' then geq r con0
                  else eq r con0);
          con2 = stdOfNegativeRightConst con1
      in ip\<lparr>bimap := bm, ip_multiCon := ip_multiCon ip @ [con2]\<rparr>)"

definition checkNode :: "Node \<Rightarrow> IP \<Rightarrow> IP" where
  "checkNode node ip =
     (let ip' =
        (if node_type node = IP_FEASIBLE \<and> dlt (lowerBound node) (objValueUpperBound ip)
         then ip\<lparr>ip_solutionType := IP_BOUNDED, ip_solution := node_solution node,
                 objValueUpperBound := lowerBound node\<rparr>
         else if node_type node = LP_FEASIBLE
                 \<and> dlt (lowerBound node) (objValueUpperBound ip)
         then ip\<lparr>nodeQueue := pq_push cmp node (nodeQueue ip)\<rparr>
         else if node_type node = NODE_UNBOUNDED
         then ip\<lparr>ip_solutionType := IP_UNBOUNDED\<rparr>
         else ip)
      in ip'\<lparr>nodeSolvedCount := u32 (int (nodeSolvedCount ip') + 1)\<rparr>)"

definition IP_init :: "IP \<Rightarrow> IP option" where
  "IP_init ip0 = do {
     let ip = (if \<not> ip_isMin ip0 then ip0\<lparr>ip_objFunc := Linearform_negate (ip_objFunc ip0)\<rparr>
               else ip0);
     let varCount' = getVarCount (bimap ip);
     let varRange = replicate varCount' (Fin 0, FP64_INF);
     rootNode \<leftarrow> Node_new (ip_objFunc ip) (ip_multiCon ip) varRange;
     Some (checkNode rootNode ip)
   }"

text \<open>The body of the \<open>while\<close> loop of \<open>solve\<close>.\<close>

definition solve_iteration :: "IP \<Rightarrow> IP option" where
  "solve_iteration ip = do {
     node \<leftarrow> pq_top (nodeQueue ip);
     let ip1 = ip\<lparr>nodeQueue := pq_pop cmp (nodeQueue ip)\<rparr>;
     leftChildNode \<leftarrow> Node_new (ip_objFunc ip1) (ip_multiCon ip1) (varRangeLeft node);
     rightChildNode \<leftarrow> Node_new (ip_objFunc ip1) (ip_multiCon ip1) (varRangeRight node);
     Some (checkNode rightChildNode (checkNode leftChildNode ip1))
   }"

text \<open>The \<open>while\<close> loop of \<open>solve\<close>. A search that branches for ever has no result.\<close>

partial_function (option) solve_loop :: "IP \<Rightarrow> IP option" where
  "solve_loop ip =
     (if length (nodeQueue ip) > 0 \<and> ip_solutionType ip \<noteq> IP_UNBOUNDED
      then solve_iteration ip \<bind> solve_loop
      else Some ip)"

declare solve_loop.simps [code]

definition solve :: "IP \<Rightarrow> IP option" where
  "solve ip0 = do {
     ip1 \<leftarrow> IP_init ip0;
     ip2 \<leftarrow> solve_loop ip1;
     Some (ip2\<lparr>ip_extremum :=
                 dmul (objValueUpperBound ip2) (Fin (if ip_isMin ip2 then 1 else - 1))\<rparr>)
   }"

text \<open>
  A problem as a caller states it: the sense and the objective terms given to the
  constructor, then the constraints given to \<open>addConstraint\<close> one after the other.
\<close>

definition IP_problem ::
  "string \<Rightarrow> (double \<times> string) list
     \<Rightarrow> ((double \<times> string) list \<times> string \<times> double) list \<Rightarrow> IP" where
  "IP_problem mode ts cs =
     fold (\<lambda>(cts, cmode, r) ip. addConstraint cts cmode r ip) cs (IP_new mode ts)"

section \<open>Concrete problems\<close>

text \<open>
  The tableau of \<open>min -0.00001 x\<close> subject to \<open>x \<le> 1\<close> when phase 2 starts, and a
  variant of it with other entries in row 0.
\<close>

definition c1_lp :: LP where
  "c1_lp = \<lparr>tableau = \<lparr>arr = [Fin (1 / 100000), Fin 0, Fin 0, Fin 1, Fin 1, Fin 1],
                        rows = 2, cols = 3, baseVarIndexs = [0, 1]\<rparr>,
            isMin = True, objFunc = \<lparr>terms = [(0, Fin (- (1 / 100000)))]\<rparr>,
            multiCon = [\<lparr>linearform = \<lparr>terms = [(0, Fin 1)]\<rparr>, relation = LEQ,
                         rightConst = Fin 1\<rparr>],
            varCount = 1, varRangeMultiCon = [], solutionType = LP_BOUNDED, solution = [],
            unboundedDirection = [], extremum = Fin 0\<rparr>"

definition c1_wit_lp :: LP where
  "c1_wit_lp = c1_lp\<lparr>tableau := (tableau c1_lp)\<lparr>arr := [Fin 0, Fin (1 / 10000), Fin 7, Fin 1, Fin 1, Fin 1]\<rparr>\<rparr>"

text \<open>
  \<open>max x\<close> subject to \<open>x - y \<le> 1\<close> and \<open>2x - y \<le> 4\<close>, with the object when
  phase 2 starts and the object the constructor returns.
\<close>

definition c3_obj :: Linearform where
  "c3_obj = \<lparr>terms = [(0, Fin 1)]\<rparr>"

definition c3_cons :: "Constraint list" where
  "c3_cons =
     [\<lparr>linearform = \<lparr>terms = [(0, Fin 1), (1, Fin (- 1))]\<rparr>, relation = LEQ,
        rightConst = Fin 1\<rparr>,
      \<lparr>linearform = \<lparr>terms = [(0, Fin 2), (1, Fin (- 1))]\<rparr>, relation = LEQ,
        rightConst = Fin 4\<rparr>]"

definition c3_start :: LP where
  "c3_start =
     \<lparr>tableau = \<lparr>arr = [Fin 1, Fin 0, Fin 0, Fin 0, Fin 0,
                         Fin 1, Fin (- 1), Fin 1, Fin 0, Fin 1,
                         Fin 2, Fin (- 1), Fin 0, Fin 1, Fin 4],
                  rows = 3, cols = 5, baseVarIndexs = [0, 2, 3]\<rparr>,
      isMin = False, objFunc = c3_obj, multiCon = c3_cons, varCount = 2,
      varRangeMultiCon = [], solutionType = LP_BOUNDED, solution = [],
      unboundedDirection = [], extremum = Fin 0\<rparr>"

definition c3_final :: LP where
  "c3_final =
     \<lparr>tableau = \<lparr>arr = [Fin 0, Fin 0, Fin 1, Fin (- 1), Fin (- 3),
                         Fin 1, Fin 0, Fin (- 1), Fin 1, Fin 3,
                         Fin 0, Fin 1, Fin (- 2), Fin 1, Fin 2],
                  rows = 3, cols = 5, baseVarIndexs = [0, 0, 1]\<rparr>,
      isMin = False, objFunc = c3_obj, multiCon = c3_cons, varCount = 2,
      varRangeMultiCon = [], solutionType = LP_UNBOUNDED, solution = [Fin 3, Fin 2],
      unboundedDirection = [Fin 1, Fin 2], extremum = PInf\<rparr>"








text \<open>
  Test 0 of \<open>Tester::lpTests\<close>: \<open>max x0 + x1\<close> subject to \<open>4 x0 + 3 x1 \<le> 17\<close>,
  \<open>2 x0 - 5 x1 \<ge> -9\<close> and \<open>x0 + 10 x1 \<ge> 25\<close>, both variables in \<open>[0, inf)\<close>.
\<close>

definition c8_obj :: Linearform where
  "c8_obj = Linearform_add (Fin 1) 1 (Linearform_add (Fin 1) 0 Linearform_new)"

definition c8_cons :: "Constraint list" where
  "c8_cons =
     [leq (Fin 17) (Constraint_add (Fin 3) 1 (Constraint_add (Fin 4) 0 Constraint_new)),
      geq (Fin (- 9)) (Constraint_add (Fin (- 5)) 1 (Constraint_add (Fin 2) 0 Constraint_new)),
      geq (Fin 25) (Constraint_add (Fin 10) 1 (Constraint_add (Fin 1) 0 Constraint_new))]"

definition c8_range :: "(double \<times> double) list" where
  "c8_range = [(Fin 0, FP64_INF), (Fin 0, FP64_INF)]"

text \<open>What a caller reads from an \<open>LP\<close> object.\<close>

definition LP_outcome :: "LP option \<Rightarrow> (LP_Type \<times> double \<times> double list) option" where
  "LP_outcome r =
     (case r of None \<Rightarrow> None | Some lp \<Rightarrow> Some (solutionType lp, extremum lp, solution lp))"

text \<open>
  \<open>min -x\<close> subject to \<open>2x \<le> 3\<close>, the relaxation of an integer problem, with the
  object the constructor returns: \<open>x = 3/2\<close>.
\<close>

definition c4_obj :: Linearform where
  "c4_obj = \<lparr>terms = [(0, Fin (- 1))]\<rparr>"

definition c4_cons :: "Constraint list" where
  "c4_cons =
     [\<lparr>linearform = \<lparr>terms = [(0, Fin 2)]\<rparr>, relation = LEQ, rightConst = Fin 3\<rparr>]"

definition c4_lp :: LP where
  "c4_lp =
     \<lparr>tableau = \<lparr>arr = [Fin 0, Fin (- (1 / 2)), Fin (- (3 / 2)),
                         Fin 1, Fin (1 / 2), Fin (3 / 2)],
                  rows = 2, cols = 3, baseVarIndexs = [0, 0]\<rparr>,
      isMin = True, objFunc = c4_obj, multiCon = c4_cons, varCount = 1,
      varRangeMultiCon = [], solutionType = LP_BOUNDED, solution = [Fin (3 / 2)],
      unboundedDirection = [], extremum = Fin (- (3 / 2))\<rparr>"

text \<open>
  The integer problem \<open>max x\<close> subject to \<open>2 x \<le> 3\<close>: as the caller states it, after
  \<open>init\<close> (the relaxation has \<open>x = 3/2\<close>, its node is queued), and after the loop of
  \<open>solve\<close>.
\<close>

definition c5_ip :: IP where
  "c5_ip = IP_problem ''max'' [(Fin 1, ''x'')] [([(Fin 2, ''x'')], ''<='', Fin 3)]"

definition c5_queued :: IP where
  "c5_queued =
     \<lparr>ip_isMin = False, ip_objFunc = \<lparr>terms = [(0, Fin (- 1))]\<rparr>,
      ip_multiCon =
        [\<lparr>linearform = \<lparr>terms = [(0, Fin 2)]\<rparr>, relation = LEQ, rightConst = Fin 3\<rparr>],
      bimap = \<lparr>strToIndex = [(''x'', 0)], indexToStr = [''x'']\<rparr>,
      nodeQueue =
        [\<lparr>node_solution = [Fin (3 / 2)], lowerBound = Fin (- (3 / 2)),
          node_type = LP_FEASIBLE, varRangeLeft = [(Fin 0, Fin 1)],
          varRangeRight = [(Fin 2, PInf)]\<rparr>],
      objValueUpperBound = PInf, nodeSolvedCount = 1,
      ip_solutionType = IP_INFEASIBLE, ip_solution = [], ip_extremum = Fin 0\<rparr>"

definition c5_done :: IP where
  "c5_done =
     c5_queued\<lparr>nodeQueue := [], objValueUpperBound := Fin (- 1), nodeSolvedCount := 3,
                ip_solutionType := IP_BOUNDED, ip_solution := [Fin 1]\<rparr>"

text \<open>The terms of an objective with every coefficient negated.\<close>

definition negate_terms :: "(double \<times> string) list \<Rightarrow> (double \<times> string) list" where
  "negate_terms ts = map (\<lambda>(coef, varName). (dneg coef, varName)) ts"

section \<open>The tableau as a matrix\<close>

text \<open>
  A tableau of finite entries as a matrix of rationals: \<open>ent t i j\<close> is the number in
  the cell \<open>(i, j)\<close>. \<open>wf_tab\<close> says that the vector holds \<open>rows * cols\<close> finite entries and
  that the index of every cell fits a \<open>uint32_t\<close>; \<open>tab_is t' t f\<close> that \<open>t'\<close> has the shape
  of \<open>t\<close> and the entries \<open>f\<close>.
\<close>

fun the_fin :: "double \<Rightarrow> rat" where
  "the_fin (Fin q) = q"
| "the_fin x = 0"

fun dfinite :: "double \<Rightarrow> bool" where
  "dfinite (Fin q) = True"
| "dfinite x = False"

definition ent :: "Tableau \<Rightarrow> nat \<Rightarrow> nat \<Rightarrow> rat" where
  "ent t i j = the_fin (arr t ! (cols t * i + j))"

definition wf_tab :: "Tableau \<Rightarrow> bool" where
  "wf_tab t = (length (arr t) = rows t * cols t \<and> rows t * cols t < 2 ^ 32 \<and>
               list_all dfinite (arr t))"

definition tab_is :: "Tableau \<Rightarrow> Tableau \<Rightarrow> (nat \<Rightarrow> nat \<Rightarrow> rat) \<Rightarrow> bool" where
  "tab_is t' t f =
     (wf_tab t' \<and> rows t' = rows t \<and> cols t' = cols t \<and>
      baseVarIndexs t' = baseVarIndexs t \<and>
      (\<forall>i<rows t. \<forall>j<cols t. ent t' i j = f i j))"



section \<open>The node queue as a heap\<close>

text \<open>
  \<open>std::is_heap\<close>: no element compares before its parent. \<open>heap_upto\<close> says it of the
  first \<open>n\<close> lower bounds of a vector of nodes, none of them NaN; \<open>heap_but\<close> says it
  of all but the position \<open>hole\<close>, whose children are then compared with its parent.
\<close>

definition is_heap :: "('a \<Rightarrow> 'a \<Rightarrow> bool) \<Rightarrow> 'a list \<Rightarrow> bool" where
  "is_heap cf xs = list_all (\<lambda>i. \<not> cf (xs ! ((i - 1) div 2)) (xs ! i)) [1..<length xs]"

definition heap_upto :: "Node list \<Rightarrow> nat \<Rightarrow> bool" where
  "heap_upto xs n =
     (n \<le> length xs \<and> (\<forall>i<n. lowerBound (xs ! i) \<noteq> NaN) \<and>
      (\<forall>i. 0 < i \<and> i < n \<longrightarrow>
         dle (lowerBound (xs ! ((i - 1) div 2))) (lowerBound (xs ! i))))"

definition heap_but :: "Node list \<Rightarrow> nat \<Rightarrow> nat \<Rightarrow> bool" where
  "heap_but xs n hole =
     (n \<le> length xs \<and> hole < n \<and> (\<forall>i<n. lowerBound (xs ! i) \<noteq> NaN) \<and>
      (\<forall>i. 0 < i \<and> i < n \<and> i \<noteq> hole \<and> (i - 1) div 2 \<noteq> hole \<longrightarrow>
         dle (lowerBound (xs ! ((i - 1) div 2))) (lowerBound (xs ! i))) \<and>
      (\<forall>c. 0 < c \<and> c < n \<and> (c - 1) div 2 = hole \<and> 0 < hole \<longrightarrow>
         dle (lowerBound (xs ! ((hole - 1) div 2))) (lowerBound (xs ! c))))"

text \<open>
  The state of the node queue that the solver keeps: a heap for \<open>cmp\<close> of open nodes,
  those of type \<open>LP_FEASIBLE\<close>, whose lower bounds are not NaN.
\<close>

definition queue_ok :: "Node list \<Rightarrow> bool" where
  "queue_ok q =
     (is_heap cmp q \<and>
      list_all (\<lambda>n. lowerBound n \<noteq> NaN \<and> node_type n = LP_FEASIBLE) q)"

text \<open>Nodes with the same lower bound, told apart by their solution.\<close>

definition c7_node :: "rat \<Rightarrow> Node" where
  "c7_node k = \<lparr>node_solution = [Fin k], lowerBound = Fin 0, node_type = LP_FEASIBLE,
                varRangeLeft = [], varRangeRight = []\<rparr>"

text \<open>A queue of three nodes with the lower bounds 1, 3 and 2, and a node with bound 0.\<close>

definition c7_bound :: "rat \<Rightarrow> Node" where
  "c7_bound k = \<lparr>node_solution = [], lowerBound = Fin k, node_type = LP_FEASIBLE,
                 varRangeLeft = [], varRangeRight = []\<rparr>"

definition c7_queue :: "Node list" where
  "c7_queue = [c7_bound 1, c7_bound 3, c7_bound 2]"

section \<open>Properties\<close>

subsection \<open>Evaluation of the model on concrete input\<close>

lemma bind_weak_cong: "m = m' \<Longrightarrow> Option.bind m f = Option.bind m' f" by simp
lemma list_update_numeral: "(x # xs)[numeral k := v] = x # xs[pred_numeral k := v]"
  by (simp add: numeral_eq_Suc)

lemma replicate_numeral: "replicate (numeral k) x = x # replicate (pred_numeral k) x"
  by (simp add: numeral_eq_Suc)

lemmas ev = Linearform_add_def Linearform_new_def Constraint_add_def Constraint_new_def
  leq_def geq_def eq_def LP_new_def LP_build_def LP_fields_def initTableau_def init_def insertConToTableau_def
  setTableauRow_def getTerms_def getRightConst_def haveSlackVar_def haveArtificialVar_def getSlackVarCoef_def
  tab_def tab_set_def cell_def vget_def vset_def u32_def checkInfeasible_def addArtificialRows_def LP_phase2_start_def
  isTableauHaveArtificialVar_def
  addRowToRow_def scaleRow_def elimination_def findNewBaseVarIndex_def findMinPosRatioRowIndex_def
  findMinPosRatioRowIndex_row_def
  handleUnbound_def handleUnbound_row_def handleBound_def handleBound_row_def
  handleNonZeroHead_def insertObjFuncToTableau_def
  isPos_def isZero_def EPS_def FP64_INF_def FP64_NAN_def Let_def upt_conv_Cons list_update_numeral
  replicate_numeral
  runMinSimplexMethod.simps findNewBaseVarIndex_from.simps

subsection \<open>The entering column\<close>

lemma findNewBaseVarIndex_from_result:
  assumes "findNewBaseVarIndex_from t j0 = Some r"
  shows "(r = - 1 \<and> (\<forall>j. j0 \<le> j \<and> j \<le> u32 (int (cols t) - 2) \<longrightarrow>
             (\<exists>x. tab t 0 j = Some x \<and> \<not> isPos x)))
       \<or> (\<exists>j x. r = int j \<and> j0 \<le> j \<and> j \<le> u32 (int (cols t) - 2) \<and>
             tab t 0 j = Some x \<and> isPos x \<and>
             (\<forall>k. j0 \<le> k \<and> k < j \<longrightarrow> (\<exists>y. tab t 0 k = Some y \<and> \<not> isPos y)))"
  using assms
proof (induction t j0 rule: findNewBaseVarIndex_from.induct)
  case (1 t j)
  show ?case
  proof (cases "j \<le> u32 (int (cols t) - 2)")
    case False
    with "1.prems" have "r = - 1"
      by (simp add: findNewBaseVarIndex_from.simps [of t j])
    with False show ?thesis by auto
  next
    case inrange: True
    show ?thesis
    proof (cases "tab t 0 j")
      case None
      with inrange "1.prems" show ?thesis
        by (simp add: findNewBaseVarIndex_from.simps [of t j])
    next
      case (Some x)
      show ?thesis
      proof (cases "isPos x")
        case True
        with inrange Some "1.prems" have "r = int j"
          by (simp add: findNewBaseVarIndex_from.simps [of t j])
        with inrange Some True show ?thesis by auto
      next
        case False
        with inrange Some "1.prems" have rec: "findNewBaseVarIndex_from t (j + 1) = Some r"
          by (simp add: findNewBaseVarIndex_from.simps [of t j])
        have step: "\<And>k. j \<le> k \<Longrightarrow> k = j \<or> j + 1 \<le> k" by arith
        from "1.IH" [OF inrange Some False rec] show ?thesis
        proof (elim disjE exE conjE)
          assume r: "r = - 1" and
            all: "\<forall>ja. j + 1 \<le> ja \<and> ja \<le> u32 (int (cols t) - 2) \<longrightarrow>
                    (\<exists>x. tab t 0 ja = Some x \<and> \<not> isPos x)"
          have "\<forall>ja. j \<le> ja \<and> ja \<le> u32 (int (cols t) - 2) \<longrightarrow>
                    (\<exists>x. tab t 0 ja = Some x \<and> \<not> isPos x)"
          proof (intro allI impI)
            fix ja assume a: "j \<le> ja \<and> ja \<le> u32 (int (cols t) - 2)"
            with step [of ja] show "\<exists>x. tab t 0 ja = Some x \<and> \<not> isPos x"
              using Some False all by auto
          qed
          with r show ?thesis by blast
        next
          fix ja xa
          assume r: "r = int ja" and lo: "j + 1 \<le> ja" and hi: "ja \<le> u32 (int (cols t) - 2)"
            and v: "tab t 0 ja = Some xa" and p: "isPos xa"
            and before: "\<forall>k. j + 1 \<le> k \<and> k < ja \<longrightarrow> (\<exists>y. tab t 0 k = Some y \<and> \<not> isPos y)"
          have "\<forall>k. j \<le> k \<and> k < ja \<longrightarrow> (\<exists>y. tab t 0 k = Some y \<and> \<not> isPos y)"
          proof (intro allI impI)
            fix k assume a: "j \<le> k \<and> k < ja"
            with step [of k] show "\<exists>y. tab t 0 k = Some y \<and> \<not> isPos y"
              using Some False before by auto
          qed
          with r lo hi v p show ?thesis
            by (intro disjI2 exI [of _ ja] exI [of _ xa]) auto
        qed
      qed
    qed
  qed
qed

lemma u32_cols_minus_2: "2 \<le> c \<Longrightarrow> c < 2 ^ 32 \<Longrightarrow> u32 (int c - 2) = c - 2"
  by (simp add: u32_def nat_diff_distrib')

lemma tab_row0: "c < 2 ^ 32 \<Longrightarrow> cols t = c \<Longrightarrow> j < c \<Longrightarrow> c \<le> length (arr t)
     \<Longrightarrow> tab t 0 j = Some (arr t ! j)"
  by (simp add: tab_def cell_def u32_def vget_def)

lemma findNewBaseVarIndex_from_total:
  assumes "2 \<le> cols t" and "cols t < 2 ^ 32" and "cols t \<le> length (arr t)"
  shows "\<exists>r. findNewBaseVarIndex_from t j = Some r"
  using assms
proof (induction t j rule: findNewBaseVarIndex_from.induct)
  case (1 t j)
  show ?case
  proof (cases "j \<le> u32 (int (cols t) - 2)")
    case False
    then show ?thesis
      by (simp add: findNewBaseVarIndex_from.simps [of t j])
  next
    case True
    with "1.prems" have "j < cols t"
      by (simp add: u32_cols_minus_2)
    with "1.prems" have v: "tab t 0 j = Some (arr t ! j)"
      by (simp add: tab_row0)
    show ?thesis
    proof (cases "isPos (arr t ! j)")
      case True
      with \<open>j \<le> u32 (int (cols t) - 2)\<close> v show ?thesis
        by (simp add: findNewBaseVarIndex_from.simps [of t j])
    next
      case False
      from "1.IH" [OF \<open>j \<le> u32 (int (cols t) - 2)\<close> v False "1.prems"]
      obtain r where "findNewBaseVarIndex_from t (j + 1) = Some r" by blast
      with \<open>j \<le> u32 (int (cols t) - 2)\<close> v False show ?thesis
        by (simp add: findNewBaseVarIndex_from.simps [of t j])
    qed
  qed
qed

text \<open>
  C1, as amended. In the min-simplex driver the entering column is the smallest column
  index \<open>j\<close>, the rhs column excluded, whose row-0 entry satisfies \<open>isPos\<close>, that is, is
  at least \<open>EPS = 1e-4\<close>; \<open>findNewBaseVarIndex\<close> always finds it on a tableau of at least
  two columns. When there is no such column it returns \<open>-1\<close>, and the driver stops
  without a pivot: it leaves the object as it is and returns whether no basis entry is
  \<open>-1\<close>.
\<close>

theorem entering_column_first_isPos:
  assumes "2 \<le> cols (tableau lp)" and "cols (tableau lp) < 2 ^ 32"
    and "cols (tableau lp) \<le> length (arr (tableau lp))"
  shows "(\<forall>x. isPos x = dle (Fin (1 / 10000)) x) \<and>
    ((\<exists>j x. j < cols (tableau lp) - 1 \<and> findNewBaseVarIndex lp = Some (int j) \<and>
         tab (tableau lp) 0 j = Some x \<and> isPos x \<and>
         (\<forall>k<j. \<exists>y. tab (tableau lp) 0 k = Some y \<and> \<not> isPos y))
     \<or> (findNewBaseVarIndex lp = Some (- 1) \<and>
         (\<forall>j<cols (tableau lp) - 1. \<exists>y. tab (tableau lp) 0 j = Some y \<and> \<not> isPos y) \<and>
         runMinSimplexMethod lp =
           (case isTableauHaveArtificialVar lp of None \<Rightarrow> None | Some a \<Rightarrow> Some (\<not> a, lp))))"
proof -
  let ?t = "tableau lp"
  have B: "u32 (int (cols ?t) - 2) = cols ?t - 2"
    using assms by (simp add: u32_cols_minus_2)
  from findNewBaseVarIndex_from_total [OF assms, of 0]
  obtain r where r: "findNewBaseVarIndex_from ?t 0 = Some r" by blast
  have eps: "\<forall>x. isPos x = dle (Fin (1 / 10000)) x"
    by (simp add: isPos_def EPS_def)
  from findNewBaseVarIndex_from_result [OF r]
  show ?thesis
  proof (elim disjE exE conjE)
    assume m: "r = - 1"
      and all: "\<forall>j. 0 \<le> j \<and> j \<le> u32 (int (cols ?t) - 2) \<longrightarrow>
                  (\<exists>x. tab ?t 0 j = Some x \<and> \<not> isPos x)"
    have none: "\<forall>j<cols ?t - 1. \<exists>y. tab ?t 0 j = Some y \<and> \<not> isPos y"
      using all B by auto
    have f: "findNewBaseVarIndex lp = Some (- 1)"
      using r m by (simp add: findNewBaseVarIndex_def)
    have "runMinSimplexMethod lp =
           (case isTableauHaveArtificialVar lp of None \<Rightarrow> None | Some a \<Rightarrow> Some (\<not> a, lp))"
      by (subst runMinSimplexMethod.simps) (simp add: f split: option.splits)
    with f none eps show ?thesis by blast
  next
    fix j x
    assume "r = int j" and "j \<le> u32 (int (cols ?t) - 2)" and "tab ?t 0 j = Some x"
      and "isPos x"
      and "\<forall>k. 0 \<le> k \<and> k < j \<longrightarrow> (\<exists>y. tab ?t 0 k = Some y \<and> \<not> isPos y)"
    moreover from this B assms have "j < cols ?t - 1" by simp
    ultimately have "\<exists>j x. j < cols ?t - 1 \<and> findNewBaseVarIndex lp = Some (int j) \<and>
         tab ?t 0 j = Some x \<and> isPos x \<and>
         (\<forall>k<j. \<exists>y. tab ?t 0 k = Some y \<and> \<not> isPos y)"
      using r by (auto simp: findNewBaseVarIndex_def)
    with eps show ?thesis by blast
  qed
qed

text \<open>
  The theorem at a tableau whose row 0 is \<open>0, 0.0001, 7\<close>: column 1 enters, its entry
  being equal to \<open>EPS\<close>.
\<close>

theorem entering_column_first_isPos_witness:
  "2 \<le> cols (tableau c1_wit_lp) \<and> cols (tableau c1_wit_lp) < 2 ^ 32 \<and>
   cols (tableau c1_wit_lp) \<le> length (arr (tableau c1_wit_lp)) \<and>
   findNewBaseVarIndex c1_wit_lp = Some 1 \<and>
   tab (tableau c1_wit_lp) 0 1 = Some (Fin (1 / 10000))"
proof -
  have h1: "2 \<le> cols (tableau c1_wit_lp)" by (simp add: c1_wit_lp_def c1_lp_def)
  have h2: "cols (tableau c1_wit_lp) < 2 ^ 32" by (simp add: c1_wit_lp_def c1_lp_def)
  have h3: "cols (tableau c1_wit_lp) \<le> length (arr (tableau c1_wit_lp))"
    by (simp add: c1_wit_lp_def c1_lp_def)
  have v0: "tab (tableau c1_wit_lp) 0 0 = Some (Fin 0)"
    by (simp add: c1_wit_lp_def c1_lp_def ev)
  have v1: "tab (tableau c1_wit_lp) 0 1 = Some (Fin (1 / 10000))"
    by (simp add: c1_wit_lp_def c1_lp_def ev)
  have p0: "\<not> isPos (Fin 0)" and p1: "isPos (Fin (1 / 10000))"
    by (simp_all add: isPos_def EPS_def)
  from entering_column_first_isPos [OF h1 h2 h3]
  have "findNewBaseVarIndex c1_wit_lp = Some 1"
  proof (elim conjE disjE exE)
    fix j x
    assume j: "findNewBaseVarIndex c1_wit_lp = Some (int j)"
      and x: "tab (tableau c1_wit_lp) 0 j = Some x" "isPos x"
      and b: "\<forall>k<j. \<exists>y. tab (tableau c1_wit_lp) 0 k = Some y \<and> \<not> isPos y"
    have "j \<noteq> 0"
    proof
      assume "j = 0"
      with x v0 p0 show False by simp
    qed
    moreover have "\<not> 1 < j"
    proof
      assume "1 < j"
      with b have "\<exists>y. tab (tableau c1_wit_lp) 0 1 = Some y \<and> \<not> isPos y" by blast
      with v1 p1 show False by simp
    qed
    ultimately have "j = 1" by arith
    with j show ?thesis by simp
  next
    assume "\<forall>j<cols (tableau c1_wit_lp) - 1.
              \<exists>y. tab (tableau c1_wit_lp) 0 j = Some y \<and> \<not> isPos y"
    then have "\<exists>y. tab (tableau c1_wit_lp) 0 1 = Some y \<and> \<not> isPos y"
      by (simp add: c1_wit_lp_def c1_lp_def)
    with v1 p1 show ?thesis by simp
  qed
  with h1 h2 h3 v1 show ?thesis by blast
qed

text \<open>
  C1 as stated fails on \<open>min -0.00001 x\<close> subject to \<open>x \<le> 1\<close>. When phase 2 starts,
  the row-0 entry of column 0 is \<open>0.00001\<close>, greater than \<open>1e-10\<close>, yet no column
  enters: the driver stops at once and the solve returns \<open>x = 0\<close>.
\<close>

theorem entering_column_counterexample:
  "tab (tableau c1_lp) 0 0 = Some (Fin (1 / 100000)) \<and>
   dlt (Fin (1 / 10 ^ 10)) (Fin (1 / 100000)) \<and>
   findNewBaseVarIndex c1_lp = Some (- 1) \<and>
   runMinSimplexMethod c1_lp = Some (True, c1_lp) \<and>
   LP_new True \<lparr>terms = [(0, Fin (- (1 / 100000)))]\<rparr>
     [\<lparr>linearform = \<lparr>terms = [(0, Fin 1)]\<rparr>, relation = LEQ, rightConst = Fin 1\<rparr>]
     [(Fin 0, PInf)]
   = Some (c1_lp\<lparr>solution := [Fin 0]\<rparr>)"
  by (simp add: c1_lp_def ev cong: bind_weak_cong)

subsection \<open>Loops and the shape of the tableau\<close>

lemma for_each_append:
  "for_each (xs @ ys) body s =
     (case for_each xs body s of None \<Rightarrow> None | Some s' \<Rightarrow> for_each ys body s')"
  by (induction xs arbitrary: s) (auto split: option.splits)

lemma for_each_upt_Suc:
  "lo \<le> k \<Longrightarrow> for_each [lo..<Suc k] body s =
     (case for_each [lo..<k] body s of None \<Rightarrow> None | Some s' \<Rightarrow> body k s')"
  by (simp add: for_each_append split: option.splits)

lemma handleUnbound_row_result:
  assumes "handleUnbound_row j i lp = Some lp'"
  shows "\<exists>b. vget (baseVarIndexs (tableau lp)) i = Some b \<and>
     (if u32 b \<le> u32 (int (varCount lp) - 1)
      then \<exists>r a. tab (tableau lp) i (u32 (int (cols (tableau lp)) - 1)) = Some r \<and>
             tab (tableau lp) i j = Some a \<and> u32 b < length (solution lp) \<and>
             u32 b < length (unboundedDirection lp) \<and>
             lp' = lp\<lparr>solution := (solution lp)[u32 b := r],
                       unboundedDirection := (unboundedDirection lp)
                         [u32 b := dmul a (Fin (if isMin lp then 1 else - 1))]\<rparr>
      else lp' = lp)"
  using assms
  by (auto simp: handleUnbound_row_def Let_def vset_def split: bind_splits if_splits)


lemma handleUnbound_loop:
  assumes "for_each [1..<k] (handleUnbound_row j) lp1 = Some lp2"
    and "length (solution lp1) = varCount lp1"
    and "length (unboundedDirection lp1) = varCount lp1"
    and "\<forall>v<varCount lp1. solution lp1 ! v = Fin 0 \<and> unboundedDirection lp1 ! v = Fin 0"
    and "varCount lp1 < 2 ^ 32"
  shows "\<exists>sol dir. lp2 = lp1\<lparr>solution := sol, unboundedDirection := dir\<rparr> \<and>
     length sol = varCount lp1 \<and> length dir = varCount lp1 \<and>
     (\<forall>v<varCount lp1.
        (\<forall>i. 1 \<le> i \<and> i < k \<longrightarrow> u32 (baseVarIndexs (tableau lp1) ! i) \<noteq> v) \<longrightarrow>
        sol ! v = Fin 0 \<and> dir ! v = Fin 0) \<and>
     (\<forall>v<varCount lp1. \<forall>i. 1 \<le> i \<and> i < k \<and> u32 (baseVarIndexs (tableau lp1) ! i) = v \<and>
        (\<forall>i'. i < i' \<and> i' < k \<longrightarrow> u32 (baseVarIndexs (tableau lp1) ! i') \<noteq> v) \<longrightarrow>
        tab (tableau lp1) i (u32 (int (cols (tableau lp1)) - 1)) = Some (sol ! v) \<and>
        (\<exists>a. tab (tableau lp1) i j = Some a \<and>
             dir ! v = dmul a (Fin (if isMin lp1 then 1 else - 1))))"
  using assms(1)
proof (induction k arbitrary: lp2)
  case 0
  then have "lp2 = lp1" by simp
  then have "lp2 = lp1\<lparr>solution := solution lp1, unboundedDirection := unboundedDirection lp1\<rparr>"
    by simp
  with assms(2-4) show ?case by (intro exI conjI) auto
next
  case (Suc k)
  show ?case
  proof (cases "1 \<le> k")
    case False
    with Suc.prems have "lp2 = lp1" by simp
    then have "lp2 = lp1\<lparr>solution := solution lp1,
                           unboundedDirection := unboundedDirection lp1\<rparr>"
      by simp
    with assms(2-4) False show ?thesis by (intro exI conjI) auto
  next
    case True
    let ?n = "varCount lp1"
    let ?b = "\<lambda>i. u32 (baseVarIndexs (tableau lp1) ! i)"
    let ?last = "u32 (int (cols (tableau lp1)) - 1)"
    let ?sg = "Fin (if isMin lp1 then 1 else - 1)"
    from Suc.prems True obtain mid where
      mid: "for_each [1..<k] (handleUnbound_row j) lp1 = Some mid"
      and body: "handleUnbound_row j k mid = Some lp2"
      by (auto simp: for_each_append split: option.splits)
    from Suc.IH [OF mid] obtain sol dir where
      m: "mid = lp1\<lparr>solution := sol, unboundedDirection := dir\<rparr>"
      and ls: "length sol = ?n" and ld: "length dir = ?n"
      and zero: "\<forall>v<?n. (\<forall>i. 1 \<le> i \<and> i < k \<longrightarrow> ?b i \<noteq> v) \<longrightarrow>
                   sol ! v = Fin 0 \<and> dir ! v = Fin 0"
      and val: "\<forall>v<?n. \<forall>i. 1 \<le> i \<and> i < k \<and> ?b i = v \<and>
                  (\<forall>i'. i < i' \<and> i' < k \<longrightarrow> ?b i' \<noteq> v) \<longrightarrow>
                  tab (tableau lp1) i ?last = Some (sol ! v) \<and>
                  (\<exists>a. tab (tableau lp1) i j = Some a \<and> dir ! v = dmul a ?sg)"
      by blast
    have tm: "tableau mid = tableau lp1" "varCount mid = varCount lp1"
      "isMin mid = isMin lp1" "solution mid = sol" "unboundedDirection mid = dir"
      using m by simp_all
    from handleUnbound_row_result [OF body, unfolded tm] obtain b where
      b: "vget (baseVarIndexs (tableau lp1)) k = Some b"
      and br: "if u32 b \<le> u32 (int ?n - 1)
          then \<exists>r a. tab (tableau lp1) k ?last = Some r \<and> tab (tableau lp1) k j = Some a \<and>
                 u32 b < length sol \<and> u32 b < length dir \<and>
                 lp2 = mid\<lparr>solution := sol[u32 b := r],
                           unboundedDirection := dir[u32 b := dmul a ?sg]\<rparr>
          else lp2 = mid"
      by blast
    from b have bk: "?b k = u32 b"
      by (auto simp: vget_def split: if_splits)
    have lt_Suc: "\<And>i. i < Suc k \<longleftrightarrow> i < k \<or> i = k" by arith
    show ?thesis
    proof (cases "u32 b \<le> u32 (int ?n - 1)")
      case inside: True
      with br obtain r a where
        r: "tab (tableau lp1) k ?last = Some r" and a: "tab (tableau lp1) k j = Some a"
        and w: "u32 b < length sol" "u32 b < length dir"
        and l2: "lp2 = mid\<lparr>solution := sol[u32 b := r],
                            unboundedDirection := dir[u32 b := dmul a ?sg]\<rparr>"
        by auto
      let ?sol = "sol[u32 b := r]" and ?dir = "dir[u32 b := dmul a ?sg]"
      have e: "lp2 = lp1\<lparr>solution := ?sol, unboundedDirection := ?dir\<rparr>"
        using l2 m by simp
      have z': "\<forall>v<?n. (\<forall>i. 1 \<le> i \<and> i < Suc k \<longrightarrow> ?b i \<noteq> v) \<longrightarrow>
                   ?sol ! v = Fin 0 \<and> ?dir ! v = Fin 0"
      proof (intro allI impI)
        fix v assume v: "v < ?n"
          and none: "\<forall>i. 1 \<le> i \<and> i < Suc k \<longrightarrow> ?b i \<noteq> v"
        from none True bk have ne: "u32 b \<noteq> v" by auto
        from none have "\<forall>i. 1 \<le> i \<and> i < k \<longrightarrow> ?b i \<noteq> v" by auto
        with zero v have "sol ! v = Fin 0 \<and> dir ! v = Fin 0" by blast
        with ne show "?sol ! v = Fin 0 \<and> ?dir ! v = Fin 0" by simp
      qed
      have v': "\<forall>v<?n. \<forall>i. 1 \<le> i \<and> i < Suc k \<and> ?b i = v \<and>
                  (\<forall>i'. i < i' \<and> i' < Suc k \<longrightarrow> ?b i' \<noteq> v) \<longrightarrow>
                  tab (tableau lp1) i ?last = Some (?sol ! v) \<and>
                  (\<exists>a'. tab (tableau lp1) i j = Some a' \<and> ?dir ! v = dmul a' ?sg)"
      proof (intro allI impI)
        fix v i
        assume v: "v < ?n"
          and h: "1 \<le> i \<and> i < Suc k \<and> ?b i = v \<and>
                  (\<forall>i'. i < i' \<and> i' < Suc k \<longrightarrow> ?b i' \<noteq> v)"
        show "tab (tableau lp1) i ?last = Some (?sol ! v) \<and>
              (\<exists>a'. tab (tableau lp1) i j = Some a' \<and> ?dir ! v = dmul a' ?sg)"
        proof (cases "i = k")
          case True
          with h bk have "u32 b = v" by simp
          with True r a w show ?thesis by simp
        next
          case False
          with h have ik: "i < k" by arith
          with h have "?b k \<noteq> v" by auto
          with bk have ne: "u32 b \<noteq> v" by simp
          from h ik have "1 \<le> i \<and> i < k \<and> ?b i = v \<and>
                  (\<forall>i'. i < i' \<and> i' < k \<longrightarrow> ?b i' \<noteq> v)" by auto
          with val v have "tab (tableau lp1) i ?last = Some (sol ! v) \<and>
                  (\<exists>a. tab (tableau lp1) i j = Some a \<and> dir ! v = dmul a ?sg)" by blast
          with ne show ?thesis by simp
        qed
      qed
      from e ls ld z' v' show ?thesis
        by (intro exI [of _ ?sol] exI [of _ ?dir] conjI) simp_all
    next
      case outside: False
      with br have l2: "lp2 = mid" by simp
      have big: "\<forall>v<?n. u32 b \<noteq> v"
      proof (intro allI impI)
        fix v assume v: "v < ?n"
        with assms(5) have "u32 (int ?n - 1) = ?n - 1"
          by (simp add: u32_def nat_diff_distrib')
        with outside v show "u32 b \<noteq> v" by arith
      qed
      have z': "\<forall>v<?n. (\<forall>i. 1 \<le> i \<and> i < Suc k \<longrightarrow> ?b i \<noteq> v) \<longrightarrow>
                   sol ! v = Fin 0 \<and> dir ! v = Fin 0"
        using zero by auto
      have v': "\<forall>v<?n. \<forall>i. 1 \<le> i \<and> i < Suc k \<and> ?b i = v \<and>
                  (\<forall>i'. i < i' \<and> i' < Suc k \<longrightarrow> ?b i' \<noteq> v) \<longrightarrow>
                  tab (tableau lp1) i ?last = Some (sol ! v) \<and>
                  (\<exists>a'. tab (tableau lp1) i j = Some a' \<and> dir ! v = dmul a' ?sg)"
      proof (intro allI impI)
        fix v i
        assume v: "v < ?n"
          and h: "1 \<le> i \<and> i < Suc k \<and> ?b i = v \<and>
                  (\<forall>i'. i < i' \<and> i' < Suc k \<longrightarrow> ?b i' \<noteq> v)"
        from big v bk have "?b k \<noteq> v" by simp
        with h have ik: "i < k" by (cases "i = k") auto
        with h have "1 \<le> i \<and> i < k \<and> ?b i = v \<and>
                  (\<forall>i'. i < i' \<and> i' < k \<longrightarrow> ?b i' \<noteq> v)" by auto
        with val v show "tab (tableau lp1) i ?last = Some (sol ! v) \<and>
                  (\<exists>a'. tab (tableau lp1) i j = Some a' \<and> dir ! v = dmul a' ?sg)" by blast
      qed
      from l2 m ls ld z' v' show ?thesis
        by (intro exI [of _ sol] exI [of _ dir] conjI) simp_all
    qed
  qed
qed


lemma handleUnbound_result:
  assumes "handleUnbound j lp = Some lp'" and "varCount lp < 2 ^ 32"
  shows "\<exists>sol dir.
     lp' = lp\<lparr>solutionType := LP_UNBOUNDED, solution := sol, unboundedDirection := dir,
               extremum := (if isMin lp then NInf else PInf)\<rparr> \<and>
     length sol = varCount lp \<and> length dir = varCount lp \<and>
     (\<forall>v<varCount lp.
        (\<forall>i. 1 \<le> i \<and> i < rows (tableau lp) \<longrightarrow> u32 (baseVarIndexs (tableau lp) ! i) \<noteq> v) \<longrightarrow>
        sol ! v = Fin 0 \<and> dir ! v = Fin 0) \<and>
     (\<forall>v<varCount lp. \<forall>i. 1 \<le> i \<and> i < rows (tableau lp) \<and>
        u32 (baseVarIndexs (tableau lp) ! i) = v \<and>
        (\<forall>i'. i < i' \<and> i' < rows (tableau lp) \<longrightarrow> u32 (baseVarIndexs (tableau lp) ! i') \<noteq> v) \<longrightarrow>
        tab (tableau lp) i (u32 (int (cols (tableau lp)) - 1)) = Some (sol ! v) \<and>
        (\<exists>a. tab (tableau lp) i j = Some a \<and>
             dir ! v = dmul a (Fin (if isMin lp then 1 else - 1))))"
proof -
  let ?lp1 = "lp\<lparr>solutionType := LP_UNBOUNDED,
                  solution := replicate (varCount lp) (Fin 0),
                  unboundedDirection := replicate (varCount lp) (Fin 0)\<rparr>"
  from assms(1) obtain lp2 where
    loop: "for_each [1..<rows (tableau lp)] (handleUnbound_row j) ?lp1 = Some lp2"
    and fin: "lp' = lp2\<lparr>extremum := (if isMin lp2 then dneg FP64_INF else FP64_INF)\<rparr>"
    by (auto simp: handleUnbound_def Let_def split: bind_splits)
  have "\<exists>sol dir. lp2 = ?lp1\<lparr>solution := sol, unboundedDirection := dir\<rparr> \<and>
     length sol = varCount ?lp1 \<and> length dir = varCount ?lp1 \<and>
     (\<forall>v<varCount ?lp1.
        (\<forall>i. 1 \<le> i \<and> i < rows (tableau lp) \<longrightarrow> u32 (baseVarIndexs (tableau ?lp1) ! i) \<noteq> v) \<longrightarrow>
        sol ! v = Fin 0 \<and> dir ! v = Fin 0) \<and>
     (\<forall>v<varCount ?lp1. \<forall>i. 1 \<le> i \<and> i < rows (tableau lp) \<and>
        u32 (baseVarIndexs (tableau ?lp1) ! i) = v \<and>
        (\<forall>i'. i < i' \<and> i' < rows (tableau lp) \<longrightarrow> u32 (baseVarIndexs (tableau ?lp1) ! i') \<noteq> v) \<longrightarrow>
        tab (tableau ?lp1) i (u32 (int (cols (tableau ?lp1)) - 1)) = Some (sol ! v) \<and>
        (\<exists>a. tab (tableau ?lp1) i j = Some a \<and>
             dir ! v = dmul a (Fin (if isMin ?lp1 then 1 else - 1))))"
    by (rule handleUnbound_loop [OF loop]) (use assms(2) in simp_all)
  then obtain sol dir where
    e: "lp2 = ?lp1\<lparr>solution := sol, unboundedDirection := dir\<rparr>"
    and rest: "length sol = varCount lp" "length dir = varCount lp"
      "\<forall>v<varCount lp.
        (\<forall>i. 1 \<le> i \<and> i < rows (tableau lp) \<longrightarrow> u32 (baseVarIndexs (tableau lp) ! i) \<noteq> v) \<longrightarrow>
        sol ! v = Fin 0 \<and> dir ! v = Fin 0"
      "\<forall>v<varCount lp. \<forall>i. 1 \<le> i \<and> i < rows (tableau lp) \<and>
        u32 (baseVarIndexs (tableau lp) ! i) = v \<and>
        (\<forall>i'. i < i' \<and> i' < rows (tableau lp) \<longrightarrow> u32 (baseVarIndexs (tableau lp) ! i') \<noteq> v) \<longrightarrow>
        tab (tableau lp) i (u32 (int (cols (tableau lp)) - 1)) = Some (sol ! v) \<and>
        (\<exists>a. tab (tableau lp) i j = Some a \<and>
             dir ! v = dmul a (Fin (if isMin lp then 1 else - 1)))"
    by auto
  from e fin have "lp' = lp\<lparr>solutionType := LP_UNBOUNDED, solution := sol,
               unboundedDirection := dir, extremum := (if isMin lp then NInf else PInf)\<rparr>"
    by (simp add: FP64_INF_def)
  with rest show ?thesis by blast
qed

lemma for_each_preserves:
  assumes "for_each xs body s = Some s'"
    and "\<And>x s s'. body x s = Some s' \<Longrightarrow> f s' = f s"
  shows "f s' = f s"
  using assms(1)
proof (induction xs arbitrary: s)
  case Nil
  then show ?case by simp
next
  case (Cons x xs)
  then obtain m where m: "body x s = Some m" and r: "for_each xs body m = Some s'"
    by (auto split: option.splits)
  from Cons.IH [OF r] assms(2) [OF m] show ?case by simp
qed

text \<open>The shape of a tableau: everything but the entries.\<close>

lemma tab_set_shape:
  "tab_set t i j v = Some t' \<Longrightarrow>
     (rows t', cols t', baseVarIndexs t', length (arr t'))
       = (rows t, cols t, baseVarIndexs t, length (arr t))"
  by (auto simp: tab_set_def vset_def split: if_splits)

lemma addRowToRow_shape:
  assumes "addRowToRow i j s t = Some t'"
  shows "(rows t', cols t', baseVarIndexs t', length (arr t'))
       = (rows t, cols t, baseVarIndexs t, length (arr t))"
  using assms unfolding addRowToRow_def
  by (rule for_each_preserves) (auto split: bind_splits dest: tab_set_shape)

lemma scaleRow_shape:
  assumes "scaleRow i s t = Some t'"
  shows "(rows t', cols t', baseVarIndexs t', length (arr t'))
       = (rows t, cols t, baseVarIndexs t, length (arr t))"
  using assms unfolding scaleRow_def
  by (rule for_each_preserves) (auto split: bind_splits dest: tab_set_shape)

lemma elimination_shape:
  assumes "elimination i j t = Some t'"
  shows "(rows t', cols t', baseVarIndexs t', length (arr t'))
       = (rows t, cols t, baseVarIndexs t, length (arr t))"
proof -
  let ?sh = "\<lambda>t. (rows t, cols t, baseVarIndexs t, length (arr t))"
  from assms obtain aij t1 t2 where
    l1: "for_each [0..<rows t]
       (\<lambda>k t. if k \<noteq> i then do { akj \<leftarrow> tab t k j; addRowToRow i k (ddiv (dneg akj) aij) t }
               else Some t) t = Some t1"
    and l2: "for_each [0..<rows t1]
       (\<lambda>k t. if k \<noteq> i then tab_set t k j (Fin 0) else Some t) t1 = Some t2"
    and l3: "scaleRow i aij t2 = Some t'"
    by (auto simp: elimination_def split: bind_splits)
  have "?sh t1 = ?sh t"
    using l1 by (rule for_each_preserves) (auto split: bind_splits if_splits dest: addRowToRow_shape)
  moreover have "?sh t2 = ?sh t1"
    using l2 by (rule for_each_preserves) (auto split: if_splits dest: tab_set_shape)
  moreover have "?sh t' = ?sh t2"
    using l3 by (rule scaleRow_shape)
  ultimately show ?thesis by simp
qed

subsection \<open>The driver\<close>

lemma isArtificial_from_False:
  "isArtificial_from b is = Some False \<longleftrightarrow> (\<forall>i\<in>set is. i < length b \<and> b ! i \<noteq> - 1)"
  by (induction "is") (auto simp: vget_def)

lemma isArtificial_from_True:
  "isArtificial_from b is = Some True \<Longrightarrow> \<exists>i\<in>set is. i < length b \<and> b ! i = - 1"
  by (induction "is") (auto simp: vget_def split: if_splits)

lemma no_artificial_after_pivot:
  assumes "isTableauHaveArtificialVar lp = Some False"
    and "rows t = rows (tableau lp)" and "baseVarIndexs t = baseVarIndexs (tableau lp)"
    and "vset (baseVarIndexs t) r j = Some b" and "j \<noteq> - 1"
  shows "isTableauHaveArtificialVar (lp\<lparr>tableau := t\<lparr>baseVarIndexs := b\<rparr>\<rparr>) = Some False"
proof -
  from assms(4) have b: "b = (baseVarIndexs t)[r := j]"
    by (auto simp: vset_def split: if_splits)
  from assms(1) have "\<forall>i\<in>set [1..<rows (tableau lp)].
      i < length (baseVarIndexs (tableau lp)) \<and> baseVarIndexs (tableau lp) ! i \<noteq> - 1"
    by (simp only: isTableauHaveArtificialVar_def isArtificial_from_False)
  with assms(2,3) have old: "\<forall>i\<in>set [1..<rows t].
      i < length (baseVarIndexs t) \<and> baseVarIndexs t ! i \<noteq> - 1"
    by simp
  have "\<forall>i\<in>set [1..<rows t]. i < length b \<and> b ! i \<noteq> - 1"
  proof
    fix i assume "i \<in> set [1..<rows t]"
    with old have i: "i < length (baseVarIndexs t)" "baseVarIndexs t ! i \<noteq> - 1" by auto
    with assms(5) b show "i < length b \<and> b ! i \<noteq> - 1"
      by (cases "i = r") simp_all
  qed
  then have "isArtificial_from b [1..<rows t] = Some False"
    by (simp only: isArtificial_from_False)
  then show ?thesis by (simp add: isTableauHaveArtificialVar_def)
qed

lemma runMinSimplexMethod_result:
  assumes "runMinSimplexMethod lp = Some r"
  shows "\<exists>tf. rows tf = rows (tableau lp) \<and> cols tf = cols (tableau lp) \<and>
     (isTableauHaveArtificialVar lp = Some False \<longrightarrow>
        isTableauHaveArtificialVar (lp\<lparr>tableau := tf\<rparr>) = Some False) \<and>
     ((findNewBaseVarIndex (lp\<lparr>tableau := tf\<rparr>) = Some (- 1) \<and>
       isTableauHaveArtificialVar (lp\<lparr>tableau := tf\<rparr>) = Some (\<not> fst r) \<and>
       snd r = lp\<lparr>tableau := tf\<rparr>)
      \<or> (\<exists>j. findNewBaseVarIndex (lp\<lparr>tableau := tf\<rparr>) = Some j \<and> j \<noteq> - 1 \<and>
           findMinPosRatioRowIndex (u32 j) (lp\<lparr>tableau := tf\<rparr>) = Some (- 1) \<and>
           handleUnbound (u32 j) (lp\<lparr>tableau := tf\<rparr>) = Some (snd r) \<and> \<not> fst r))"
  using assms
proof (induction lp r rule: runMinSimplexMethod.raw_induct [rotated, consumes 1, case_names step])
  case (step run lp r)
  from step.hyps obtain j where j: "findNewBaseVarIndex lp = Some j"
    by (auto split: bind_splits)
  have self: "lp\<lparr>tableau := tableau lp\<rparr> = lp" by simp
  show ?case
  proof (cases "j = - 1")
    case True
    with step.hyps j obtain a where a: "isTableauHaveArtificialVar lp = Some a"
      and r: "r = (\<not> a, lp)"
      by (auto split: bind_splits if_splits)
    show ?thesis
      by (rule exI [of _ "tableau lp"]) (use True j a r in \<open>simp add: self\<close>)
  next
    case enter: False
    with step.hyps j obtain rowIndex where
      row: "findMinPosRatioRowIndex (u32 j) lp = Some rowIndex"
      by (auto split: bind_splits)
    show ?thesis
    proof (cases "rowIndex = - 1")
      case True
      with step.hyps j enter row obtain lp' where
        h: "handleUnbound (u32 j) lp = Some lp'" and r: "r = (False, lp')"
        by (auto split: bind_splits)
      show ?thesis
        by (rule exI [of _ "tableau lp"]) (use True j enter row h r in \<open>simp add: self\<close>)
    next
      case False
      with step.hyps j enter row obtain t b where
        el: "elimination (u32 rowIndex) (u32 j) (tableau lp) = Some t"
        and b: "vset (baseVarIndexs t) (nat rowIndex) j = Some b"
        and rec: "run (lp\<lparr>tableau := t\<lparr>baseVarIndexs := b\<rparr>\<rparr>) = Some r"
        by (auto split: bind_splits)
      let ?next = "lp\<lparr>tableau := t\<lparr>baseVarIndexs := b\<rparr>\<rparr>"
      from elimination_shape [OF el] have sh: "rows t = rows (tableau lp)"
        "cols t = cols (tableau lp)" "baseVarIndexs t = baseVarIndexs (tableau lp)"
        by simp_all
      have na: "isTableauHaveArtificialVar lp = Some False \<Longrightarrow>
                isTableauHaveArtificialVar ?next = Some False"
        by (rule no_artificial_after_pivot [OF _ sh(1) sh(3) b enter])
      from step.IH [OF rec] obtain tf where
        tf: "rows tf = rows (tableau ?next)" "cols tf = cols (tableau ?next)"
        "isTableauHaveArtificialVar ?next = Some False \<longrightarrow>
           isTableauHaveArtificialVar (?next\<lparr>tableau := tf\<rparr>) = Some False"
        "(findNewBaseVarIndex (?next\<lparr>tableau := tf\<rparr>) = Some (- 1) \<and>
           isTableauHaveArtificialVar (?next\<lparr>tableau := tf\<rparr>) = Some (\<not> fst r) \<and>
           snd r = ?next\<lparr>tableau := tf\<rparr>)
         \<or> (\<exists>j. findNewBaseVarIndex (?next\<lparr>tableau := tf\<rparr>) = Some j \<and> j \<noteq> - 1 \<and>
           findMinPosRatioRowIndex (u32 j) (?next\<lparr>tableau := tf\<rparr>) = Some (- 1) \<and>
           handleUnbound (u32 j) (?next\<lparr>tableau := tf\<rparr>) = Some (snd r) \<and> \<not> fst r)"
        by blast
      have over: "?next\<lparr>tableau := tf\<rparr> = lp\<lparr>tableau := tf\<rparr>" by simp
      show ?thesis
        by (rule exI [of _ tf]) (use tf sh na in \<open>simp add: over\<close>)
    qed
  qed
qed

subsection \<open>The stages of the constructor\<close>

lemma isTableauHaveArtificialVar_cong:
  "rows (tableau lp') = rows (tableau lp) \<Longrightarrow>
   baseVarIndexs (tableau lp') = baseVarIndexs (tableau lp) \<Longrightarrow>
   isTableauHaveArtificialVar lp' = isTableauHaveArtificialVar lp"
  by (simp add: isTableauHaveArtificialVar_def)




lemma insertConToTableau_fields:
  "insertConToTableau lp = Some lp' \<Longrightarrow> lp' = lp\<lparr>tableau := tableau lp'\<rparr>"
  by (auto simp: insertConToTableau_def split: bind_splits)

lemma LP_build_fields:
  assumes "LP_build isMin' obj cons vr = Some lp0"
  shows "isMin lp0 = isMin'" and "varCount lp0 = length vr" and "solution lp0 = []"
    and "unboundedDirection lp0 = []"
proof -
  from assms have "lp0 = (initTableau (LP_fields isMin' obj cons vr))\<lparr>tableau := tableau lp0\<rparr>"
    unfolding LP_build_def by (rule insertConToTableau_fields)
  then have e: "lp0 = (LP_fields isMin' obj cons vr)\<lparr>tableau := tableau lp0\<rparr>"
    by (simp add: initTableau_def Let_def)
  show "isMin lp0 = isMin'" by (subst e) (simp add: LP_fields_def)
  show "varCount lp0 = length vr" by (subst e) (simp add: LP_fields_def)
  show "solution lp0 = []" by (subst e) (simp add: LP_fields_def)
  show "unboundedDirection lp0 = []" by (subst e) (simp add: LP_fields_def)
qed

lemma insertObjFuncToTableau_fields:
  assumes "insertObjFuncToTableau lp = Some lp'"
  shows "lp' = lp\<lparr>tableau := tableau lp'\<rparr>"
    and "rows (tableau lp') = rows (tableau lp)"
    and "baseVarIndexs (tableau lp') = baseVarIndexs (tableau lp)"
proof -
  let ?sh = "\<lambda>t. (rows t, cols t, baseVarIndexs t, length (arr t))"
  from assms obtain t where
    t: "for_each (terms (objFunc lp))
            (\<lambda>(varIndex, coef) t.
               tab_set t 0 varIndex (dmul coef (Fin (if isMin lp then - 1 else 1))))
            (tableau lp) = Some t"
    and e: "lp' = lp\<lparr>tableau := t\<rparr>"
    by (auto simp: insertObjFuncToTableau_def split: bind_splits)
  have "?sh t = ?sh (tableau lp)"
    using t by (rule for_each_preserves) (auto dest: tab_set_shape)
  with e show "lp' = lp\<lparr>tableau := tableau lp'\<rparr>"
    and "rows (tableau lp') = rows (tableau lp)"
    and "baseVarIndexs (tableau lp') = baseVarIndexs (tableau lp)"
    by simp_all
qed

lemma handleNonZeroHead_fields:
  assumes "handleNonZeroHead lp = Some lp'"
  shows "lp' = lp\<lparr>tableau := tableau lp'\<rparr>"
    and "rows (tableau lp') = rows (tableau lp)"
    and "baseVarIndexs (tableau lp') = baseVarIndexs (tableau lp)"
proof -
  let ?sh = "\<lambda>t. (rows t, cols t, baseVarIndexs t, length (arr t))"
  from assms obtain t where
    t: "for_each [1..<rows (tableau lp)]
            (\<lambda>i t. do {
               b \<leftarrow> vget (baseVarIndexs t) i;
               let baseVarIndex = u32 b;
               h \<leftarrow> tab t 0 baseVarIndex;
               if \<not> isZero h then addRowToRow i 0 (dneg h) t else Some t
             }) (tableau lp) = Some t"
    and e: "lp' = lp\<lparr>tableau := t\<rparr>"
    by (auto simp: handleNonZeroHead_def split: bind_splits)
  have "?sh t = ?sh (tableau lp)"
    using t
    by (rule for_each_preserves)
      (auto simp: Let_def split: bind_splits if_splits dest: addRowToRow_shape)
  with e show "lp' = lp\<lparr>tableau := tableau lp'\<rparr>"
    and "rows (tableau lp') = rows (tableau lp)"
    and "baseVarIndexs (tableau lp') = baseVarIndexs (tableau lp)"
    by simp_all
qed

lemma checkInfeasible_True:
  assumes "checkInfeasible lp = Some (True, lp1)"
  shows "isTableauHaveArtificialVar lp1 = Some False" and "lp1 = lp\<lparr>tableau := tableau lp1\<rparr>"
proof -
  from assms obtain a where a: "isTableauHaveArtificialVar lp = Some a"
    by (auto simp: checkInfeasible_def split: bind_splits)
  have "isTableauHaveArtificialVar lp1 = Some False \<and> lp1 = lp\<lparr>tableau := tableau lp1\<rparr>"
  proof (cases a)
    case False
    with assms a have "lp1 = lp" by (simp add: checkInfeasible_def)
    with a False show ?thesis by simp
  next
    case True
    with assms a obtain t lpx t' where
      run: "runMinSimplexMethod (lp\<lparr>tableau := t\<rparr>) = Some (True, lpx)"
      and z: "for_each [0..<cols (tableau lpx)] (\<lambda>j t. tab_set t 0 j (Fin 0)) (tableau lpx)
                = Some t'"
      and e: "lp1 = lpx\<lparr>tableau := t'\<rparr>"
      by (auto simp: checkInfeasible_def split: bind_splits if_splits)
    from runMinSimplexMethod_result [OF run] obtain tf where
      "isTableauHaveArtificialVar (lp\<lparr>tableau := tf\<rparr>) = Some False"
      and x: "lpx = lp\<lparr>tableau := tf\<rparr>"
      by auto
    then have nx: "isTableauHaveArtificialVar lpx = Some False" by simp
    let ?sh = "\<lambda>t. (rows t, cols t, baseVarIndexs t, length (arr t))"
    have "?sh t' = ?sh (tableau lpx)"
      using z by (rule for_each_preserves) (auto dest: tab_set_shape)
    with e have "isTableauHaveArtificialVar lp1 = isTableauHaveArtificialVar lpx"
      by (intro isTableauHaveArtificialVar_cong) simp_all
    with nx e x show ?thesis by simp
  qed
  then show "isTableauHaveArtificialVar lp1 = Some False"
    and "lp1 = lp\<lparr>tableau := tableau lp1\<rparr>" by simp_all
qed


lemma handleBound_row_fields:
  "handleBound_row i lp = Some lp' \<Longrightarrow>
     lp' = lp\<lparr>solution := solution lp'\<rparr> \<and> length (solution lp') = length (solution lp)"
  by (auto simp: handleBound_row_def Let_def vset_def split: bind_splits if_splits)

lemma handleBound_result:
  assumes "handleBound lp = Some lp'"
  shows "solutionType lp' = LP_BOUNDED" and "length (solution lp') = varCount lp"
    and "tableau lp' = tableau lp"
proof -
  let ?lp1 = "lp\<lparr>solutionType := LP_BOUNDED, solution := replicate (varCount lp) (Fin 0)\<rparr>"
  from assms obtain lp2 e where
    loop: "for_each [1..<rows (tableau lp)] handleBound_row ?lp1 = Some lp2"
    and fin: "lp' = lp2\<lparr>extremum := e\<rparr>"
    by (auto simp: handleBound_def Let_def split: bind_splits)
  let ?f = "\<lambda>l. (solutionType l, length (solution l), tableau l)"
  have "?f lp2 = ?f ?lp1"
    using loop
  proof (rule for_each_preserves)
    fix x s s' assume "handleBound_row x s = Some s'"
    from handleBound_row_fields [OF this]
    have "s' = s\<lparr>solution := solution s'\<rparr>" "length (solution s') = length (solution s)"
      by simp_all
    then show "?f s' = ?f s"
      by (metis LP.select_convs(1) LP.select_convs(7) LP.surjective LP.update_convs(8))
  qed
  with fin show "solutionType lp' = LP_BOUNDED" and "length (solution lp') = varCount lp"
    and "tableau lp' = tableau lp"
    by simp_all
qed

lemma LP_phase2_start_stages:
  assumes "LP_phase2_start isMin' obj cons vr = Some lp3"
  shows "\<exists>lp0 lp1 lp2. LP_build isMin' obj cons vr = Some lp0 \<and>
     checkInfeasible lp0 = Some (True, lp1) \<and> insertObjFuncToTableau lp1 = Some lp2 \<and>
     handleNonZeroHead lp2 = Some lp3"
  using assms
  by (auto simp: LP_phase2_start_def split: bind_splits if_splits)

lemma LP_phase2_start_fields:
  assumes "LP_phase2_start isMin' obj cons vr = Some lp3"
  shows "isTableauHaveArtificialVar lp3 = Some False" and "isMin lp3 = isMin'"
    and "varCount lp3 = length vr"
proof -
  from LP_phase2_start_stages [OF assms] obtain lp0 lp1 lp2 where
    b: "LP_build isMin' obj cons vr = Some lp0"
    and c: "checkInfeasible lp0 = Some (True, lp1)"
    and i: "insertObjFuncToTableau lp1 = Some lp2"
    and h: "handleNonZeroHead lp2 = Some lp3"
    by blast
  note f1 = checkInfeasible_True [OF c]
  note f2 = insertObjFuncToTableau_fields [OF i]
  note f3 = handleNonZeroHead_fields [OF h]
  have "isTableauHaveArtificialVar lp3 = isTableauHaveArtificialVar lp2"
    by (rule isTableauHaveArtificialVar_cong) (rule f3)+
  also have "\<dots> = isTableauHaveArtificialVar lp1"
    by (rule isTableauHaveArtificialVar_cong) (rule f2)+
  finally show "isTableauHaveArtificialVar lp3 = Some False"
    using f1(1) by simp
  have "isMin lp3 = isMin lp2" by (subst f3(1)) simp
  also have "\<dots> = isMin lp1" by (subst f2(1)) simp
  also have "\<dots> = isMin lp0" by (subst f1(2)) simp
  finally show "isMin lp3 = isMin'" using LP_build_fields(1) [OF b] by simp
  have "varCount lp3 = varCount lp2" by (subst f3(1)) simp
  also have "\<dots> = varCount lp1" by (subst f2(1)) simp
  also have "\<dots> = varCount lp0" by (subst f1(2)) simp
  finally show "varCount lp3 = length vr" using LP_build_fields(2) [OF b] by simp
qed

lemma LP_new_phase2:
  assumes "LP_phase2_start isMin' obj cons vr = Some lp3"
  shows "LP_new isMin' obj cons vr =
     (case runMinSimplexMethod lp3 of
        None \<Rightarrow> None
      | Some (bounded, lp4) \<Rightarrow> if bounded then handleBound lp4 else Some lp4)"
proof -
  from LP_phase2_start_stages [OF assms] obtain lp0 lp1 lp2 where
    "LP_build isMin' obj cons vr = Some lp0"
    "checkInfeasible lp0 = Some (True, lp1)" "insertObjFuncToTableau lp1 = Some lp2"
    "handleNonZeroHead lp2 = Some lp3"
    by blast
  then show ?thesis
    by (simp add: LP_new_def split: option.splits prod.splits)
qed

lemma LP_new_cases:
  assumes "LP_new isMin' obj cons vr = Some lp"
  shows "(\<exists>lp0 lp1. LP_build isMin' obj cons vr = Some lp0 \<and>
            checkInfeasible lp0 = Some (False, lp1) \<and>
            lp = lp1\<lparr>solutionType := LP_INFEASIBLE, extremum := FP64_NAN\<rparr>)
       \<or> (\<exists>lp3 lp4. LP_phase2_start isMin' obj cons vr = Some lp3 \<and>
            runMinSimplexMethod lp3 = Some (True, lp4) \<and> handleBound lp4 = Some lp)
       \<or> (\<exists>lp3. LP_phase2_start isMin' obj cons vr = Some lp3 \<and>
            runMinSimplexMethod lp3 = Some (False, lp))"
proof -
  from assms obtain lp0 feasible lp1 where
    b: "LP_build isMin' obj cons vr = Some lp0"
    and c: "checkInfeasible lp0 = Some (feasible, lp1)"
    by (auto simp: LP_new_def split: bind_splits)
  show ?thesis
  proof (cases feasible)
    case False
    with assms b c have "lp = lp1\<lparr>solutionType := LP_INFEASIBLE, extremum := FP64_NAN\<rparr>"
      by (simp add: LP_new_def)
    with b c False show ?thesis by auto
  next
    case True
    with assms b c obtain lp2 lp3 bounded lp4 where
      i: "insertObjFuncToTableau lp1 = Some lp2" and h: "handleNonZeroHead lp2 = Some lp3"
      and r: "runMinSimplexMethod lp3 = Some (bounded, lp4)"
      and f: "(if bounded then handleBound lp4 else Some lp4) = Some lp"
      by (auto simp: LP_new_def split: bind_splits)
    from b c True i h have s: "LP_phase2_start isMin' obj cons vr = Some lp3"
      by (simp add: LP_phase2_start_def)
    show ?thesis
    proof (cases bounded)
      case True
      with s r f show ?thesis by auto
    next
      case False
      with s r f show ?thesis by auto
    qed
  qed
qed

lemma phase2_False_is_unbounded:
  assumes "LP_phase2_start isMin' obj cons vr = Some lp3"
    and "runMinSimplexMethod lp3 = Some (False, lp)"
  shows "\<exists>tf j. findNewBaseVarIndex (lp3\<lparr>tableau := tf\<rparr>) = Some j \<and> j \<noteq> - 1 \<and>
     findMinPosRatioRowIndex (u32 j) (lp3\<lparr>tableau := tf\<rparr>) = Some (- 1) \<and>
     handleUnbound (u32 j) (lp3\<lparr>tableau := tf\<rparr>) = Some lp"
proof -
  note na = LP_phase2_start_fields(1) [OF assms(1)]
  from runMinSimplexMethod_result [OF assms(2)] na obtain tf where
    n: "isTableauHaveArtificialVar (lp3\<lparr>tableau := tf\<rparr>) = Some False"
    and d: "(findNewBaseVarIndex (lp3\<lparr>tableau := tf\<rparr>) = Some (- 1) \<and>
       isTableauHaveArtificialVar (lp3\<lparr>tableau := tf\<rparr>) = Some True \<and>
       lp = lp3\<lparr>tableau := tf\<rparr>)
      \<or> (\<exists>j. findNewBaseVarIndex (lp3\<lparr>tableau := tf\<rparr>) = Some j \<and> j \<noteq> - 1 \<and>
           findMinPosRatioRowIndex (u32 j) (lp3\<lparr>tableau := tf\<rparr>) = Some (- 1) \<and>
           handleUnbound (u32 j) (lp3\<lparr>tableau := tf\<rparr>) = Some lp)"
    by auto
  from d n show ?thesis by auto
qed

subsection \<open>The min-ratio test\<close>



subsection \<open>The solution of an unbounded problem\<close>

lemma c3_start_eval:
  "LP_phase2_start False c3_obj c3_cons [(Fin 0, PInf), (Fin 0, PInf)] = Some c3_start"
  by (simp add: c3_obj_def c3_cons_def c3_start_def ev cong: bind_weak_cong)

lemma c3_run_eval: "runMinSimplexMethod c3_start = Some (False, c3_final)"
  by (simp add: c3_obj_def c3_cons_def c3_start_def c3_final_def ev cong: bind_weak_cong)

lemma c3_new_eval:
  "LP_new False c3_obj c3_cons [(Fin 0, PInf), (Fin 0, PInf)] = Some c3_final"
  by (simp add: LP_new_phase2 [OF c3_start_eval] c3_run_eval)





lemma handleUnbound_row_fields:
  assumes "handleUnbound_row j i lp = Some lp'"
  shows "(solutionType lp', tableau lp', isMin lp', varCount lp', length (solution lp'),
          length (unboundedDirection lp'))
       = (solutionType lp, tableau lp, isMin lp, varCount lp, length (solution lp),
          length (unboundedDirection lp))"
  using handleUnbound_row_result [OF assms] by (auto split: if_splits)

lemma handleUnbound_fields:
  assumes "handleUnbound j lp = Some lp'"
  shows "solutionType lp' = LP_UNBOUNDED" and "tableau lp' = tableau lp"
    and "extremum lp' = (if isMin lp then NInf else PInf)"
    and "length (solution lp') = varCount lp"
    and "length (unboundedDirection lp') = varCount lp"
proof -
  let ?lp1 = "lp\<lparr>solutionType := LP_UNBOUNDED,
                  solution := replicate (varCount lp) (Fin 0),
                  unboundedDirection := replicate (varCount lp) (Fin 0)\<rparr>"
  let ?f = "\<lambda>l. (solutionType l, tableau l, isMin l, varCount l, length (solution l),
                 length (unboundedDirection l))"
  from assms obtain lp2 where
    loop: "for_each [1..<rows (tableau lp)] (handleUnbound_row j) ?lp1 = Some lp2"
    and fin: "lp' = lp2\<lparr>extremum := (if isMin lp2 then dneg FP64_INF else FP64_INF)\<rparr>"
    by (auto simp: handleUnbound_def Let_def split: bind_splits)
  have "?f lp2 = ?f ?lp1"
    using loop by (rule for_each_preserves) (rule handleUnbound_row_fields)
  with fin show "solutionType lp' = LP_UNBOUNDED" and "tableau lp' = tableau lp"
    and "extremum lp' = (if isMin lp then NInf else PInf)"
    and "length (solution lp') = varCount lp"
    and "length (unboundedDirection lp') = varCount lp"
    by (simp_all add: FP64_INF_def)
qed

text \<open>
  C10. Whenever the solve returns \<open>UNBOUNDED\<close>, the returned solution vector has
  length \<open>n\<close>, so it is not empty when there is a variable, and it holds the current
  basic vertex: a general variable that is basic in a constraint row has that row's rhs
  value (the last such row, should several rows name the variable), and every other
  general variable is 0. Here \<open>n\<close> is the number of variable ranges, which fits the
  \<open>uint32_t\<close> the source stores it in. The tableau of the returned object is the one
  the driver stopped at.
\<close>

theorem unbounded_solution_is_vertex:
  assumes "LP_new isMin' obj cons vr = Some lp" and "solutionType lp = LP_UNBOUNDED"
    and "length vr < 2 ^ 32"
  shows "length (solution lp) = length vr \<and> (0 < length vr \<longrightarrow> solution lp \<noteq> []) \<and>
    (\<forall>v<length vr. \<forall>i. 1 \<le> i \<and> i < rows (tableau lp) \<and>
        u32 (baseVarIndexs (tableau lp) ! i) = v \<and>
        (\<forall>i'. i < i' \<and> i' < rows (tableau lp) \<longrightarrow> u32 (baseVarIndexs (tableau lp) ! i') \<noteq> v) \<longrightarrow>
        tab (tableau lp) i (u32 (int (cols (tableau lp)) - 1)) = Some (solution lp ! v)) \<and>
    (\<forall>v<length vr.
        (\<forall>i. 1 \<le> i \<and> i < rows (tableau lp) \<longrightarrow> u32 (baseVarIndexs (tableau lp) ! i) \<noteq> v) \<longrightarrow>
        solution lp ! v = Fin 0)"
proof -
  from LP_new_cases [OF assms(1)] assms(2) obtain lp3 where
    s: "LP_phase2_start isMin' obj cons vr = Some lp3"
    and r: "runMinSimplexMethod lp3 = Some (False, lp)"
    by (auto dest: handleBound_result(1))
  from phase2_False_is_unbounded [OF s r] obtain tf j where
    h: "handleUnbound (u32 j) (lp3\<lparr>tableau := tf\<rparr>) = Some lp"
    by blast
  let ?lpf = "lp3\<lparr>tableau := tf\<rparr>"
  have n: "varCount ?lpf = length vr"
    using LP_phase2_start_fields(3) [OF s] by simp
  with assms(3) have "varCount ?lpf < 2 ^ 32" by simp
  from handleUnbound_result [OF h this] obtain sol dir where
    e: "lp = ?lpf\<lparr>solutionType := LP_UNBOUNDED, solution := sol,
                     unboundedDirection := dir,
                     extremum := (if isMin ?lpf then NInf else PInf)\<rparr>"
    and l: "length sol = varCount ?lpf"
    and z: "\<forall>v<varCount ?lpf.
        (\<forall>i. 1 \<le> i \<and> i < rows (tableau ?lpf) \<longrightarrow>
             u32 (baseVarIndexs (tableau ?lpf) ! i) \<noteq> v) \<longrightarrow>
        sol ! v = Fin 0 \<and> dir ! v = Fin 0"
    and v: "\<forall>v<varCount ?lpf. \<forall>i. 1 \<le> i \<and> i < rows (tableau ?lpf) \<and>
        u32 (baseVarIndexs (tableau ?lpf) ! i) = v \<and>
        (\<forall>i'. i < i' \<and> i' < rows (tableau ?lpf) \<longrightarrow>
             u32 (baseVarIndexs (tableau ?lpf) ! i') \<noteq> v) \<longrightarrow>
        tab (tableau ?lpf) i (u32 (int (cols (tableau ?lpf)) - 1)) = Some (sol ! v) \<and>
        (\<exists>a. tab (tableau ?lpf) i (u32 j) = Some a \<and>
             dir ! v = dmul a (Fin (if isMin ?lpf then 1 else - 1)))"
    by blast
  have t: "tableau lp = tableau ?lpf" and so: "solution lp = sol"
    by (simp_all add: e)
  from l n so have len: "length (solution lp) = length vr" by simp
  then have ne: "0 < length vr \<longrightarrow> solution lp \<noteq> []" by auto
  from z have z': "\<forall>v<length vr.
        (\<forall>i. 1 \<le> i \<and> i < rows (tableau lp) \<longrightarrow> u32 (baseVarIndexs (tableau lp) ! i) \<noteq> v) \<longrightarrow>
        solution lp ! v = Fin 0"
    unfolding t so n by blast
  from v have v': "\<forall>v<length vr. \<forall>i. 1 \<le> i \<and> i < rows (tableau lp) \<and>
        u32 (baseVarIndexs (tableau lp) ! i) = v \<and>
        (\<forall>i'. i < i' \<and> i' < rows (tableau lp) \<longrightarrow> u32 (baseVarIndexs (tableau lp) ! i') \<noteq> v) \<longrightarrow>
        tab (tableau lp) i (u32 (int (cols (tableau lp)) - 1)) = Some (solution lp ! v)"
    unfolding t so n by blast
  from len ne v' z' show ?thesis by blast
qed

text \<open>
  The theorem at \<open>max x\<close> subject to \<open>x - y \<le> 1\<close>, \<open>2x - y \<le> 4\<close>: the solve is
  unbounded and returns the vertex \<open>(3, 2)\<close>, the rhs of rows 1 and 2.
\<close>

theorem unbounded_solution_is_vertex_witness:
  "LP_new False c3_obj c3_cons [(Fin 0, PInf), (Fin 0, PInf)] = Some c3_final \<and>
   solutionType c3_final = LP_UNBOUNDED \<and>
   length (solution c3_final) = 2 \<and> solution c3_final \<noteq> [] \<and>
   tab (tableau c3_final) 1 4 = Some (solution c3_final ! 0) \<and>
   tab (tableau c3_final) 2 4 = Some (solution c3_final ! 1)"
proof -
  have h2: "solutionType c3_final = LP_UNBOUNDED" by (simp add: c3_final_def)
  have h3: "length [(Fin 0, PInf), (Fin 0, PInf)] < (2::nat) ^ 32" by simp
  note th = unbounded_solution_is_vertex [OF c3_new_eval h2 h3]
  have b: "baseVarIndexs (tableau c3_final) = [0, 0, 1]" "rows (tableau c3_final) = 3"
    "cols (tableau c3_final) = 5"
    by (simp_all add: c3_final_def)
  have r1: "\<forall>i'. 1 < i' \<and> i' < rows (tableau c3_final) \<longrightarrow>
              u32 (baseVarIndexs (tableau c3_final) ! i') \<noteq> 0"
  proof (intro allI impI)
    fix i' assume "1 < i' \<and> i' < rows (tableau c3_final)"
    then have "i' = 2" by (simp add: b)
    then show "u32 (baseVarIndexs (tableau c3_final) ! i') \<noteq> 0"
      by (simp add: b u32_def)
  qed
  have r2: "\<forall>i'. 2 < i' \<and> i' < rows (tableau c3_final) \<longrightarrow>
              u32 (baseVarIndexs (tableau c3_final) ! i') \<noteq> 1"
    by (simp add: b)
  from th have len: "length (solution c3_final) = 2" by simp
  from th have ne: "solution c3_final \<noteq> []" by simp
  from th have "\<forall>v<2. \<forall>i. 1 \<le> i \<and> i < rows (tableau c3_final) \<and>
        u32 (baseVarIndexs (tableau c3_final) ! i) = v \<and>
        (\<forall>i'. i < i' \<and> i' < rows (tableau c3_final) \<longrightarrow>
           u32 (baseVarIndexs (tableau c3_final) ! i') \<noteq> v) \<longrightarrow>
        tab (tableau c3_final) i (u32 (int (cols (tableau c3_final)) - 1))
          = Some (solution c3_final ! v)"
    by simp
  then have gen: "\<And>v i. v < 2 \<Longrightarrow> 1 \<le> i \<Longrightarrow> i < rows (tableau c3_final) \<Longrightarrow>
        u32 (baseVarIndexs (tableau c3_final) ! i) = v \<Longrightarrow>
        (\<forall>i'. i < i' \<and> i' < rows (tableau c3_final) \<longrightarrow>
           u32 (baseVarIndexs (tableau c3_final) ! i') \<noteq> v) \<Longrightarrow>
        tab (tableau c3_final) i (u32 (int (cols (tableau c3_final)) - 1))
          = Some (solution c3_final ! v)"
    by blast
  have c: "u32 (int (cols (tableau c3_final)) - 1) = 4" by (simp add: b u32_def)
  have v0: "tab (tableau c3_final) 1 4 = Some (solution c3_final ! 0)"
    using gen [of 0 1, OF _ _ _ _ r1] by (simp add: b c u32_def)
  have v1: "tab (tableau c3_final) 2 4 = Some (solution c3_final ! 1)"
    using gen [of 1 2, OF _ _ _ _ r2] by (simp add: b c u32_def)
  from c3_new_eval h2 len ne v0 v1 show ?thesis by blast
qed

subsection \<open>A failed min-ratio test\<close>




subsection \<open>An infeasible problem\<close>



subsection \<open>The bounded scenario\<close>

lemma c8_eval:
  "LP_outcome (LP_new False c8_obj c8_cons c8_range)
     = Some (LP_BOUNDED, Fin (64 / 13), [Fin (29 / 13), Fin (35 / 13)])"
  by (simp add: LP_outcome_def c8_obj_def c8_cons_def c8_range_def stdOfNegativeRightConst_def
      Linearform_negate_def ev cong: bind_weak_cong)

lemma c8_eval_normalised:
  "LP_outcome (LP_new False c8_obj (map stdOfNegativeRightConst c8_cons) c8_range)
     = Some (LP_BOUNDED, Fin (64 / 13), [Fin (29 / 13), Fin (35 / 13)])"
  by (simp add: LP_outcome_def c8_obj_def c8_cons_def c8_range_def stdOfNegativeRightConst_def
      Linearform_negate_def ev cong: bind_weak_cong)

text \<open>
  C8, as amended. Solving \<open>max x + y\<close> subject to \<open>4x + 3y \<le> 17\<close>, \<open>2x - 5y \<ge> -9\<close>,
  \<open>x + 10y \<ge> 25\<close>, \<open>x \<ge> 0\<close>, \<open>y \<ge> 0\<close> returns \<open>BOUNDED\<close> with extremum \<open>64/13\<close>, about
  \<open>4.9231\<close>, at \<open>x = 29/13\<close> and \<open>y = 35/13\<close>, both strictly positive. The result is the
  same whether the constraints are passed as the test writes them or normalised to a
  non-negative right side, as \<open>IP::addConstraint\<close> does.
\<close>

theorem bounded_lp_scenario:
  "LP_outcome (LP_new False c8_obj c8_cons c8_range)
     = Some (LP_BOUNDED, Fin (64 / 13), [Fin (29 / 13), Fin (35 / 13)]) \<and>
   LP_outcome (LP_new False c8_obj (map stdOfNegativeRightConst c8_cons) c8_range)
     = Some (LP_BOUNDED, Fin (64 / 13), [Fin (29 / 13), Fin (35 / 13)]) \<and>
   dlt (Fin (49230 / 10000)) (Fin (64 / 13)) \<and> dlt (Fin (64 / 13)) (Fin (49232 / 10000)) \<and>
   dlt (Fin 0) (Fin (29 / 13)) \<and> dlt (Fin 0) (Fin (35 / 13))"
  using c8_eval c8_eval_normalised by simp

text \<open>
  C8 as stated fails: the extremum the solve returns is \<open>64/13\<close>, which is below \<open>5\<close>,
  not within any rounding of \<open>5.6538\<close>.
\<close>

theorem bounded_lp_scenario_counterexample:
  "LP_outcome (LP_new False c8_obj c8_cons c8_range)
     = Some (LP_BOUNDED, Fin (64 / 13), [Fin (29 / 13), Fin (35 / 13)]) \<and>
   dlt (Fin (64 / 13)) (Fin 5) \<and> dlt (Fin 5) (Fin (56538 / 10000))"
  using c8_eval by simp

subsection \<open>Branching\<close>

lemma c4_lp_eval: "LP_new True c4_obj c4_cons [(Fin 0, PInf)] = Some c4_lp"
  by (simp add: c4_obj_def c4_cons_def c4_lp_def ev cong: bind_weak_cong)

lemma getSplitVarIndex_from_result:
  "(getSplitVarIndex_from xs i = - 1 \<and> (\<forall>x\<in>set xs. isInt x))
   \<or> (\<exists>k<length xs. getSplitVarIndex_from xs i = int (i + k) \<and> \<not> isInt (xs ! k) \<and>
         (\<forall>k'<k. isInt (xs ! k')))"
proof (induction xs arbitrary: i)
  case Nil
  then show ?case by simp
next
  case (Cons x xs)
  show ?case
  proof (cases "isInt x")
    case False
    then have "0 < length (x # xs) \<and> getSplitVarIndex_from (x # xs) i = int (i + 0) \<and>
        \<not> isInt ((x # xs) ! 0) \<and> (\<forall>k'<0. isInt ((x # xs) ! k'))"
      by simp
    then show ?thesis by blast
  next
    case True
    from Cons.IH [of "i + 1"] show ?thesis
    proof (elim disjE conjE exE)
      assume "getSplitVarIndex_from xs (i + 1) = - 1" "\<forall>x\<in>set xs. isInt x"
      with True show ?thesis by simp
    next
      fix k
      assume k: "k < length xs" "getSplitVarIndex_from xs (i + 1) = int (i + 1 + k)"
        "\<not> isInt (xs ! k)" "\<forall>k'<k. isInt (xs ! k')"
      have "\<forall>k'<Suc k. isInt ((x # xs) ! k')"
      proof (intro allI impI)
        fix k' assume "k' < Suc k"
        with k(4) True show "isInt ((x # xs) ! k')" by (cases k') simp_all
      qed
      with k True have "Suc k < length (x # xs) \<and>
          getSplitVarIndex_from (x # xs) i = int (i + Suc k) \<and>
          \<not> isInt ((x # xs) ! Suc k) \<and> (\<forall>k'<Suc k. isInt ((x # xs) ! k'))"
        by simp
      then show ?thesis by blast
    qed
  qed
qed

lemma LP_BOUNDED_solution_length:
  assumes "LP_new isMin' obj cons vr = Some lp" and "solutionType lp = LP_BOUNDED"
  shows "length (solution lp) = length vr"
proof -
  from LP_new_cases [OF assms(1)] show ?thesis
  proof (elim disjE exE conjE)
    fix lp0 lp1
    assume "lp = lp1\<lparr>solutionType := LP_INFEASIBLE, extremum := FP64_NAN\<rparr>"
    with assms(2) show ?thesis by simp
  next
    fix lp3 lp4
    assume s: "LP_phase2_start isMin' obj cons vr = Some lp3"
      and r: "runMinSimplexMethod lp3 = Some (True, lp4)"
      and h: "handleBound lp4 = Some lp"
    from runMinSimplexMethod_result [OF r] obtain tf where "lp4 = lp3\<lparr>tableau := tf\<rparr>"
      by auto
    then have "varCount lp4 = varCount lp3" by simp
    with handleBound_result(2) [OF h] LP_phase2_start_fields(3) [OF s]
    show ?thesis by simp
  next
    fix lp3
    assume s: "LP_phase2_start isMin' obj cons vr = Some lp3"
      and r: "runMinSimplexMethod lp3 = Some (False, lp)"
    from phase2_False_is_unbounded [OF s r] obtain tf j where
      "handleUnbound (u32 j) (lp3\<lparr>tableau := tf\<rparr>) = Some lp" by blast
    from handleUnbound_fields(1) [OF this] assms(2) show ?thesis by simp
  qed
qed

text \<open>
  C4. For a bounded node whose LP solution is not integral, the constructor makes the
  node \<open>LP_FEASIBLE\<close> and branches on the smallest index \<open>v\<close> whose solution value is
  not within \<open>1e-4\<close> of an integer (\<open>isInt\<close>); with \<open>s = floor(solution[v])\<close>, the left
  child's box is the parent's with \<open>hi[v] = s\<close> and the right child's is the parent's
  with \<open>lo[v] = s + 1\<close>, every other bound unchanged.
\<close>

theorem branching_on_first_fractional:
  assumes "LP_new True obj cons vr = Some lp" and "solutionType lp = LP_BOUNDED"
    and "\<exists>x\<in>set (solution lp). \<not> isInt x"
  shows "(\<forall>x. isInt x = dle (dabs (dsub x (dround x))) (Fin (1 / 10000))) \<and>
    (\<exists>nd v. Node_new obj cons vr = Some nd \<and> node_type nd = LP_FEASIBLE \<and>
       node_solution nd = solution lp \<and> lowerBound nd = extremum lp \<and>
       v < length vr \<and> length (solution lp) = length vr \<and>
       \<not> isInt (solution lp ! v) \<and> (\<forall>k<v. isInt (solution lp ! k)) \<and>
       length (varRangeLeft nd) = length vr \<and> length (varRangeRight nd) = length vr \<and>
       varRangeLeft nd ! v = (fst (vr ! v), dfloor (solution lp ! v)) \<and>
       varRangeRight nd ! v = (dadd (dfloor (solution lp ! v)) (Fin 1), snd (vr ! v)) \<and>
       (\<forall>k<length vr. k \<noteq> v \<longrightarrow>
          varRangeLeft nd ! k = vr ! k \<and> varRangeRight nd ! k = vr ! k))"
proof -
  have len: "length (solution lp) = length vr"
    by (rule LP_BOUNDED_solution_length [OF assms(1,2)])
  from getSplitVarIndex_from_result [of "solution lp" 0] assms(3)
  obtain v where v: "v < length (solution lp)"
    and g: "getSplitVarIndex lp = int v"
    and nv: "\<not> isInt (solution lp ! v)" and before: "\<forall>k<v. isInt (solution lp ! k)"
    by (auto simp: getSplitVarIndex_def)
  let ?s = "dfloor (solution lp ! v)"
  let ?left = "vr[v := (fst (vr ! v), ?s)]"
  let ?right = "vr[v := (dadd ?s (Fin 1), snd (vr ! v))]"
  let ?nd = "\<lparr>node_solution = solution lp, lowerBound = extremum lp,
              node_type = LP_FEASIBLE, varRangeLeft = ?left, varRangeRight = ?right\<rparr>"
  from v len have vv: "v < length vr" by simp
  have "Node_new obj cons vr = Some ?nd"
    using assms(1,2) g v vv
    by (simp add: Node_new_def Let_def vget_def vset_def getSplitValue_def)
  moreover have "\<forall>k<length vr. k \<noteq> v \<longrightarrow> ?left ! k = vr ! k \<and> ?right ! k = vr ! k"
    by simp
  moreover have "\<forall>x. isInt x = dle (dabs (dsub x (dround x))) (Fin (1 / 10000))"
    by (simp add: isInt_def EPS_def)
  ultimately show ?thesis
    using vv len nv before
    by (intro conjI exI [of _ ?nd] exI [of _ v]) simp_all
qed

text \<open>
  The theorem at \<open>min -x\<close> subject to \<open>2x \<le> 3\<close>: the relaxation has \<open>x = 3/2\<close>, the
  node branches on \<open>x\<close> with \<open>s = 1\<close>, the left box is \<open>[0, 1]\<close> and the right box
  is \<open>[2, inf)\<close>.
\<close>

theorem branching_on_first_fractional_witness:
  "LP_new True c4_obj c4_cons [(Fin 0, PInf)] = Some c4_lp \<and>
   solutionType c4_lp = LP_BOUNDED \<and> (\<exists>x\<in>set (solution c4_lp). \<not> isInt x) \<and>
   (\<exists>nd. Node_new c4_obj c4_cons [(Fin 0, PInf)] = Some nd \<and> node_type nd = LP_FEASIBLE \<and>
      varRangeLeft nd ! 0 = (Fin 0, Fin 1) \<and> varRangeRight nd ! 0 = (Fin 2, PInf))"
proof -
  have h2: "solutionType c4_lp = LP_BOUNDED" by (simp add: c4_lp_def)
  have h3: "\<exists>x\<in>set (solution c4_lp). \<not> isInt x"
    by (simp add: c4_lp_def isInt_def EPS_def dsub_def)
  from branching_on_first_fractional [OF c4_lp_eval h2 h3] obtain nd v where
    n: "Node_new c4_obj c4_cons [(Fin 0, PInf)] = Some nd" "node_type nd = LP_FEASIBLE"
    and v: "v < length [(Fin 0, PInf)]"
    and l: "varRangeLeft nd ! v = (fst ([(Fin 0, PInf)] ! v), dfloor (solution c4_lp ! v))"
    and r: "varRangeRight nd ! v
              = (dadd (dfloor (solution c4_lp ! v)) (Fin 1), snd ([(Fin 0, PInf)] ! v))"
    by blast
  from v have v0: "v = 0" by simp
  have fl: "\<lfloor>(3::rat) / 2\<rfloor> = 1" by (simp add: floor_eq_iff)
  from l v0 have "varRangeLeft nd ! 0 = (Fin 0, Fin 1)" by (simp add: c4_lp_def fl)
  moreover from r v0 have "varRangeRight nd ! 0 = (Fin 2, PInf)"
    by (simp add: c4_lp_def fl)
  ultimately show ?thesis using c4_lp_eval h2 h3 n by blast
qed

subsection \<open>The incumbent upper bound\<close>

lemma floor_rat_numeral:
  "\<lfloor>numeral a / numeral b :: rat\<rfloor> = numeral a div numeral b"
  by (metis floor_divide_of_int_eq of_int_numeral)

lemma floor_rat_minus_numeral:
  "\<lfloor>- (numeral a / numeral b) :: rat\<rfloor> = - numeral a div numeral b"
  by (metis floor_divide_of_int_eq of_int_numeral of_int_minus minus_divide_left)

lemmas ev_ip = IP_problem_def IP_new_def addConstraint_def add_terms.simps getVarIndex_def
  getVarCount_def IP_init_def solve_def solve_iteration_def checkNode_def Node_new_def
  getSplitVarIndex_def getSplitValue_def isInt_def dsub_def cmp_def pq_push_def pq_pop_def
  pq_top_def push_heap_def pop_heap_def adjust_heap_def push_heap_loop.simps
  adjust_heap_loop.simps Linearform_negate_def stdOfNegativeRightConst_def
  floor_rat_numeral floor_rat_minus_numeral ceiling_def

lemma c5_ip_eval: "IP_init c5_ip = Some c5_queued"
  by (simp add: c5_ip_def c5_queued_def ev_ip ev cong: bind_weak_cong)

lemma c5_iteration_eval: "solve_iteration c5_queued = Some c5_done"
  by (simp add: c5_done_def c5_queued_def ev_ip ev cong: bind_weak_cong)



lemma dlt_trans: "dlt a b \<Longrightarrow> dlt b c \<Longrightarrow> dlt a c"
  by (cases a; cases b; cases c) simp_all

lemma checkNode_upper_bound:
  "objValueUpperBound (checkNode node ip) =
     (if node_type node = IP_FEASIBLE \<and> dlt (lowerBound node) (objValueUpperBound ip)
      then lowerBound node else objValueUpperBound ip)"
  by (simp add: checkNode_def Let_def)

lemma checkNode_non_increasing:
  "objValueUpperBound (checkNode node ip) = objValueUpperBound ip
   \<or> dlt (objValueUpperBound (checkNode node ip)) (objValueUpperBound ip)"
  by (simp add: checkNode_upper_bound)

lemma solve_iteration_non_increasing:
  assumes "solve_iteration ip = Some ip'"
  shows "objValueUpperBound ip' = objValueUpperBound ip
         \<or> dlt (objValueUpperBound ip') (objValueUpperBound ip)"
proof -
  from assms obtain l r where
    e: "ip' = checkNode r (checkNode l (ip\<lparr>nodeQueue := pq_pop cmp (nodeQueue ip)\<rparr>))"
    by (auto simp: solve_iteration_def Let_def split: bind_splits)
  let ?ip1 = "ip\<lparr>nodeQueue := pq_pop cmp (nodeQueue ip)\<rparr>"
  have u1: "objValueUpperBound ?ip1 = objValueUpperBound ip" by simp
  from checkNode_non_increasing [of l ?ip1] checkNode_non_increasing [of r "checkNode l ?ip1"]
  show ?thesis
    unfolding e u1 by (auto intro: dlt_trans)
qed

lemma solve_loop_non_increasing:
  assumes "solve_loop ip = Some ip'"
  shows "objValueUpperBound ip' = objValueUpperBound ip
         \<or> dlt (objValueUpperBound ip') (objValueUpperBound ip)"
  using assms
proof (induction ip ip' rule: solve_loop.raw_induct [rotated, consumes 1, case_names step])
  case (step loop ip ip')
  show ?case
  proof (cases "length (nodeQueue ip) > 0 \<and> ip_solutionType ip \<noteq> IP_UNBOUNDED")
    case False
    with step.hyps have "ip' = ip" by (auto split: if_splits)
    then show ?thesis by simp
  next
    case True
    with step.hyps obtain mid where
      it: "solve_iteration ip = Some mid" and rest: "loop mid = Some ip'"
      by (auto split: bind_splits)
    from solve_iteration_non_increasing [OF it] step.IH [OF rest]
    show ?thesis by (auto intro: dlt_trans)
  qed
qed

lemma IP_init_non_increasing:
  assumes "IP_init ip = Some ip'"
  shows "objValueUpperBound ip' = objValueUpperBound ip
         \<or> dlt (objValueUpperBound ip') (objValueUpperBound ip)"
proof -
  from assms obtain root ipn where
    e: "ip' = checkNode root ipn" and u: "objValueUpperBound ipn = objValueUpperBound ip"
    by (auto simp: IP_init_def Let_def split: bind_splits if_splits)
  from checkNode_non_increasing [of root ipn] show ?thesis
    unfolding e u .
qed


lemma c5_loop_eval: "solve_loop c5_queued = Some c5_done"
proof -
  have stop: "solve_loop c5_done = Some c5_done"
    by (subst solve_loop.simps) (simp add: c5_done_def)
  have go: "nodeQueue c5_queued \<noteq> []" "ip_solutionType c5_queued \<noteq> IP_UNBOUNDED"
    by (simp_all add: c5_queued_def)
  show ?thesis
    by (subst solve_loop.simps) (simp add: go c5_iteration_eval stop)
qed

lemma c5_solve_eval: "solve c5_ip = Some (c5_done\<lparr>ip_extremum := Fin 1\<rparr>)"
  by (simp add: solve_def c5_ip_eval c5_loop_eval) (simp add: c5_done_def c5_queued_def)

text \<open>
  C5. Throughout a sequential solve the incumbent upper bound is non-increasing.
  \<open>checkNode\<close> changes it only when the node is \<open>IP_FEASIBLE\<close> with a lower bound strictly
  below the current upper bound, and then sets it to that lower bound, records the
  node's solution as the incumbent and marks the problem \<open>BOUNDED\<close>; in every other
  case the upper bound and the incumbent stay as they are. Hence the upper bound after
  \<open>checkNode\<close>, after one iteration of the loop of \<open>solve\<close> from any state, after the
  rest of the loop from any state, and after the whole of \<open>solve\<close>, is the one before
  or strictly below it.
\<close>

theorem incumbent_upper_bound_non_increasing:
  "objValueUpperBound (checkNode node ip) =
     (if node_type node = IP_FEASIBLE \<and> dlt (lowerBound node) (objValueUpperBound ip)
      then lowerBound node else objValueUpperBound ip) \<and>
   ip_solution (checkNode node ip) =
     (if node_type node = IP_FEASIBLE \<and> dlt (lowerBound node) (objValueUpperBound ip)
      then node_solution node else ip_solution ip) \<and>
   (if node_type node = IP_FEASIBLE \<and> dlt (lowerBound node) (objValueUpperBound ip)
    then ip_solutionType (checkNode node ip) = IP_BOUNDED
    else ip_solutionType (checkNode node ip) = IP_UNBOUNDED
         \<or> ip_solutionType (checkNode node ip) = ip_solutionType ip) \<and>
   (objValueUpperBound (checkNode node ip) = objValueUpperBound ip
      \<or> dlt (objValueUpperBound (checkNode node ip)) (objValueUpperBound ip)) \<and>
   (solve_iteration ip = Some ip2 \<longrightarrow>
      objValueUpperBound ip2 = objValueUpperBound ip
      \<or> dlt (objValueUpperBound ip2) (objValueUpperBound ip)) \<and>
   (solve_loop ip = Some ip3 \<longrightarrow>
      objValueUpperBound ip3 = objValueUpperBound ip
      \<or> dlt (objValueUpperBound ip3) (objValueUpperBound ip)) \<and>
   (solve ip0 = Some ip4 \<longrightarrow>
      objValueUpperBound ip4 = objValueUpperBound ip0
      \<or> dlt (objValueUpperBound ip4) (objValueUpperBound ip0))"
proof -
  have a: "ip_solution (checkNode node ip) =
     (if node_type node = IP_FEASIBLE \<and> dlt (lowerBound node) (objValueUpperBound ip)
      then node_solution node else ip_solution ip)"
    by (simp add: checkNode_def Let_def)
  have b: "if node_type node = IP_FEASIBLE \<and> dlt (lowerBound node) (objValueUpperBound ip)
    then ip_solutionType (checkNode node ip) = IP_BOUNDED
    else ip_solutionType (checkNode node ip) = IP_UNBOUNDED
         \<or> ip_solutionType (checkNode node ip) = ip_solutionType ip"
    by (simp add: checkNode_def Let_def)
  have s: "solve ip0 = Some ip4 \<longrightarrow>
      objValueUpperBound ip4 = objValueUpperBound ip0
      \<or> dlt (objValueUpperBound ip4) (objValueUpperBound ip0)"
  proof
    assume "solve ip0 = Some ip4"
    then obtain i1 i2 e where i: "IP_init ip0 = Some i1" and l: "solve_loop i1 = Some i2"
      and f: "ip4 = i2\<lparr>ip_extremum := e\<rparr>"
      by (auto simp: solve_def split: bind_splits)
    from IP_init_non_increasing [OF i] solve_loop_non_increasing [OF l] f
    show "objValueUpperBound ip4 = objValueUpperBound ip0
      \<or> dlt (objValueUpperBound ip4) (objValueUpperBound ip0)"
      by (auto intro: dlt_trans)
  qed
  have i: "solve_iteration ip = Some ip2 \<longrightarrow>
      objValueUpperBound ip2 = objValueUpperBound ip
      \<or> dlt (objValueUpperBound ip2) (objValueUpperBound ip)"
    using solve_iteration_non_increasing by blast
  have l: "solve_loop ip = Some ip3 \<longrightarrow>
      objValueUpperBound ip3 = objValueUpperBound ip
      \<or> dlt (objValueUpperBound ip3) (objValueUpperBound ip)"
    using solve_loop_non_increasing by blast
  from a b s i l checkNode_upper_bound [of node ip] checkNode_non_increasing [of node ip]
  show ?thesis by (intro conjI)
qed

text \<open>
  On \<open>max x\<close> subject to \<open>2 x \<le> 3\<close> the bound is \<open>+\<infinity>\<close> when the loop starts with the
  relaxation queued, and \<open>-1\<close> after the one iteration that the loop makes: the left
  child \<open>x \<le> 1\<close> is integral with lower bound \<open>-1\<close>, the right child \<open>x \<ge> 2\<close> is
  infeasible.
\<close>

theorem incumbent_upper_bound_non_increasing_witness:
  "solve_iteration c5_queued = Some c5_done \<and>
   solve_loop c5_queued = Some c5_done \<and>
   solve c5_ip = Some (c5_done\<lparr>ip_extremum := Fin 1\<rparr>) \<and>
   objValueUpperBound c5_ip = PInf \<and> objValueUpperBound c5_queued = PInf \<and>
   objValueUpperBound c5_done = Fin (- 1) \<and>
   dlt (objValueUpperBound c5_done) (objValueUpperBound c5_queued) \<and>
   dlt (objValueUpperBound (c5_done\<lparr>ip_extremum := Fin 1\<rparr>)) (objValueUpperBound c5_ip)"
proof -
  have u: "objValueUpperBound c5_ip = PInf" "objValueUpperBound c5_queued = PInf"
    "objValueUpperBound c5_done = Fin (- 1)"
    by (simp_all add: c5_ip_def c5_queued_def c5_done_def ev_ip ev)
  from incumbent_upper_bound_non_increasing
    [of _ c5_queued c5_done c5_done c5_ip "c5_done\<lparr>ip_extremum := Fin 1\<rparr>"]
    c5_iteration_eval c5_loop_eval c5_solve_eval
  show ?thesis by (simp add: u)
qed

subsection \<open>The sense of the problem\<close>

lemma dneg_dneg: "dneg (dneg x) = x"
  by (cases x) simp_all

lemma dadd_dneg: "dadd (dneg a) (dneg b) = dneg (dadd a b)"
  by (cases a; cases b) simp_all

lemma dmul_minus_one: "dmul x (Fin (- 1)) = dneg (dmul x (Fin 1))"
  by (cases x) (simp_all add: inf_of_sign_def)

lemma dmul_one: "dmul x (Fin 1) = x"
  by (cases x) (simp_all add: inf_of_sign_def)

lemma Linearform_negate_negate: "Linearform_negate (Linearform_negate lf) = lf"
proof -
  have "map ((\<lambda>(k, c). (k, dneg c)) \<circ> (\<lambda>(k, c). (k, dneg c))) xs = xs"
    for xs :: "(nat \<times> double) list"
    by (induction xs) (auto simp: dneg_dneg)
  then show ?thesis by (simp add: Linearform_negate_def)
qed

lemma terms_add_negate:
  "terms_add (dneg coef) j (map (\<lambda>(k, c). (k, dneg c)) ts)
     = map (\<lambda>(k, c). (k, dneg c)) (terms_add coef j ts)"
  by (induction ts) (auto simp: dadd_dneg)

lemma Linearform_add_negate:
  "Linearform_add (dneg coef) j (Linearform_negate lf)
     = Linearform_negate (Linearform_add coef j lf)"
  by (simp add: Linearform_add_def Linearform_negate_def terms_add_negate)

lemma add_terms_negate:
  "add_terms (negate_terms ts) (Linearform_negate lf, bm)
     = (Linearform_negate (fst (add_terms ts (lf, bm))), snd (add_terms ts (lf, bm)))"
proof (induction ts arbitrary: lf bm)
  case Nil
  show ?case by (simp add: negate_terms_def)
next
  case (Cons t ts)
  obtain coef varName where t: "t = (coef, varName)" by (cases t)
  obtain j bm' where g: "getVarIndex varName bm = (j, bm')" by (cases "getVarIndex varName bm")
  from Cons.IH [of "Linearform_add coef j lf" bm'] show ?case
    by (simp add: t g negate_terms_def Linearform_add_negate)
qed

lemma negate_terms_negate_terms: "negate_terms (negate_terms ts) = ts"
  by (induction ts) (auto simp: negate_terms_def dneg_dneg)

lemma Linearform_negate_new: "Linearform_negate Linearform_new = Linearform_new"
  by (simp add: Linearform_negate_def Linearform_new_def)

lemma IP_new_negate:
  "IP_new mode' (negate_terms ts) =
     (IP_new mode ts)\<lparr>ip_isMin := (mode' = ''min''),
                      ip_objFunc := Linearform_negate (ip_objFunc (IP_new mode ts))\<rparr>"
  using add_terms_negate [of ts Linearform_new "\<lparr>strToIndex = [], indexToStr = []\<rparr>"]
  by (simp add: IP_new_def Linearform_negate_new split_beta)

lemma addConstraint_sense:
  "addConstraint cts cmode r (ip\<lparr>ip_isMin := b, ip_objFunc := f\<rparr>)
     = (addConstraint cts cmode r ip)\<lparr>ip_isMin := b, ip_objFunc := f\<rparr>"
  by (simp add: addConstraint_def Let_def split_beta)

lemma addConstraint_objFunc:
  "ip_objFunc (addConstraint cts cmode r ip) = ip_objFunc ip"
  by (simp add: addConstraint_def Let_def split_beta)

lemma fold_addConstraint_sense:
  "fold (\<lambda>(cts, cmode, r) ip. addConstraint cts cmode r ip) cs (ip\<lparr>ip_isMin := b, ip_objFunc := f\<rparr>)
     = (fold (\<lambda>(cts, cmode, r) ip. addConstraint cts cmode r ip) cs ip)
         \<lparr>ip_isMin := b, ip_objFunc := f\<rparr>"
  by (induction cs arbitrary: ip) (auto simp: addConstraint_sense)

lemma fold_addConstraint_objFunc:
  "ip_objFunc (fold (\<lambda>(cts, cmode, r) ip. addConstraint cts cmode r ip) cs ip) = ip_objFunc ip"
  by (induction cs arbitrary: ip) (auto simp: addConstraint_objFunc)

lemma IP_problem_negate:
  "IP_problem mode' (negate_terms ts) cs =
     (IP_problem mode ts cs)\<lparr>ip_isMin := (mode' = ''min''),
          ip_objFunc := Linearform_negate (ip_objFunc (IP_problem mode ts cs))\<rparr>"
  by (simp add: IP_problem_def IP_new_negate [of mode' ts mode] fold_addConstraint_sense
      fold_addConstraint_objFunc)

lemma IP_problem_isMin: "ip_isMin (IP_problem mode ts cs) = (mode = ''min'')"
proof -
  have "ip_isMin (fold (\<lambda>(cts, cmode, r) ip. addConstraint cts cmode r ip) cs ip) = ip_isMin ip"
    for ip
    by (induction cs arbitrary: ip) (auto simp: addConstraint_def Let_def split_beta)
  then show ?thesis by (simp add: IP_problem_def IP_new_def split_beta)
qed

text \<open>The sense is read by \<open>init\<close> and at the end of \<open>solve\<close> only.\<close>

lemma checkNode_sense:
  "checkNode node (ip\<lparr>ip_isMin := b\<rparr>) = (checkNode node ip)\<lparr>ip_isMin := b\<rparr>"
  by (simp add: checkNode_def Let_def)

lemma checkNode_sense_queue:
  "checkNode node (ip\<lparr>ip_isMin := b, nodeQueue := q\<rparr>)
     = (checkNode node (ip\<lparr>nodeQueue := q\<rparr>))\<lparr>ip_isMin := b\<rparr>"
  by (simp add: checkNode_def Let_def)

lemma checkNode_isMin: "ip_isMin (checkNode node ip) = ip_isMin ip"
  by (simp add: checkNode_def Let_def)

lemma solve_iteration_sense:
  "solve_iteration (ip\<lparr>ip_isMin := b\<rparr>)
     = (case solve_iteration ip of None \<Rightarrow> None | Some r \<Rightarrow> Some (r\<lparr>ip_isMin := b\<rparr>))"
  by (simp add: solve_iteration_def Let_def checkNode_sense checkNode_sense_queue
      split: bind_splits option.splits)

lemma solve_loop_sense_Some:
  assumes "solve_loop ip = Some r"
  shows "solve_loop (ip\<lparr>ip_isMin := b\<rparr>) = Some (r\<lparr>ip_isMin := b\<rparr>)"
  using assms
proof (induction ip r rule: solve_loop.raw_induct [rotated, consumes 1, case_names step])
  case (step loop ip r)
  show ?case
  proof (cases "length (nodeQueue ip) > 0 \<and> ip_solutionType ip \<noteq> IP_UNBOUNDED")
    case False
    with step.hyps have "r = ip" by (auto split: if_splits)
    with False show ?thesis by (subst solve_loop.simps) auto
  next
    case True
    with step.hyps obtain mid where
      it: "solve_iteration ip = Some mid" and rest: "loop mid = Some r"
      by (auto split: bind_splits)
    from step.IH [OF rest] have "solve_loop (mid\<lparr>ip_isMin := b\<rparr>) = Some (r\<lparr>ip_isMin := b\<rparr>)" .
    with True it show ?thesis
      by (subst solve_loop.simps) (simp add: solve_iteration_sense)
  qed
qed

lemma solve_loop_sense:
  "solve_loop (ip\<lparr>ip_isMin := b\<rparr>)
     = (case solve_loop ip of None \<Rightarrow> None | Some r \<Rightarrow> Some (r\<lparr>ip_isMin := b\<rparr>))"
proof (cases "solve_loop ip")
  case (Some r)
  with solve_loop_sense_Some [OF Some, where b = b] show ?thesis by simp
next
  case None
  have "solve_loop (ip\<lparr>ip_isMin := b\<rparr>) = None"
  proof (cases "solve_loop (ip\<lparr>ip_isMin := b\<rparr>)")
    case (Some r')
    from solve_loop_sense_Some [OF Some, where b = "ip_isMin ip"] None show ?thesis by simp
  qed simp
  with None show ?thesis by simp
qed

lemma IP_init_negate:
  assumes "ip_isMin ip"
  shows "IP_init (ip\<lparr>ip_isMin := False, ip_objFunc := Linearform_negate (ip_objFunc ip)\<rparr>)
     = (case IP_init ip of None \<Rightarrow> None | Some r \<Rightarrow> Some (r\<lparr>ip_isMin := False\<rparr>))"
  using assms
  by (simp add: IP_init_def Let_def Linearform_negate_negate checkNode_sense
      split: bind_splits option.splits)

lemma solve_negate:
  assumes "ip_isMin ip"
  shows "solve (ip\<lparr>ip_isMin := False, ip_objFunc := Linearform_negate (ip_objFunc ip)\<rparr>)
     = (case solve ip of None \<Rightarrow> None
        | Some r \<Rightarrow> Some (r\<lparr>ip_isMin := False, ip_extremum := dneg (ip_extremum r)\<rparr>))"
proof (cases "IP_init ip")
  case None
  with IP_init_negate [OF assms] show ?thesis by (simp add: solve_def)
next
  case (Some i1)
  note i = Some
  show ?thesis
  proof (cases "solve_loop i1")
    case None
    with i IP_init_negate [OF assms] solve_loop_sense [where ip = i1 and b = False] show ?thesis
      by (simp add: solve_def)
  next
    case (Some i2)
    from i have "ip_isMin i1 = ip_isMin ip"
      by (auto simp: IP_init_def Let_def checkNode_isMin split: bind_splits if_splits)
    moreover from Some solve_loop_sense [where ip = i1 and b = "ip_isMin i1"]
    have "i2 = i2\<lparr>ip_isMin := ip_isMin i1\<rparr>" by simp
    then have "ip_isMin i2 = ip_isMin i1" by (metis IP.select_convs(1) IP.surjective IP.update_convs(1))
    ultimately have m: "ip_isMin i2" using assms by simp
    with i Some IP_init_negate [OF assms] solve_loop_sense [where ip = i1 and b = False] show ?thesis
      by (simp add: solve_def dmul_minus_one)
  qed
qed


lemma IP_init_isMin:
  assumes "IP_init ip = Some r"
  shows "ip_isMin r = ip_isMin ip"
  using assms
  by (auto simp: IP_init_def Let_def checkNode_isMin split: bind_splits if_splits)

lemma solve_loop_isMin:
  assumes "solve_loop ip = Some r"
  shows "ip_isMin r = ip_isMin ip"
proof -
  from assms solve_loop_sense [where ip = ip and b = "ip_isMin ip"]
  have "r = r\<lparr>ip_isMin := ip_isMin ip\<rparr>" by simp
  then show ?thesis by (metis IP.select_convs(1) IP.surjective IP.update_convs(1))
qed

lemma solve_result:
  assumes "solve ip = Some r"
  shows "ip_isMin r = ip_isMin ip"
    and "ip_extremum r = (if ip_isMin ip then objValueUpperBound r
                          else dneg (objValueUpperBound r))"
proof -
  from assms obtain i1 i2 where i: "IP_init ip = Some i1" and l: "solve_loop i1 = Some i2"
    and f: "r = i2\<lparr>ip_extremum :=
                 dmul (objValueUpperBound i2) (Fin (if ip_isMin i2 then 1 else - 1))\<rparr>"
    by (auto simp: solve_def split: bind_splits)
  from IP_init_isMin [OF i] solve_loop_isMin [OF l] have m: "ip_isMin i2 = ip_isMin ip" by simp
  with f show "ip_isMin r = ip_isMin ip" by simp
  from f m show "ip_extremum r = (if ip_isMin ip then objValueUpperBound r
                          else dneg (objValueUpperBound r))"
    by (simp add: dmul_minus_one dmul_one)
qed

lemma IP_init_objFunc:
  assumes "IP_init ip = Some r"
  shows "ip_objFunc r = (if ip_isMin ip then ip_objFunc ip
                         else Linearform_negate (ip_objFunc ip))"
proof -
  have "ip_objFunc (checkNode node x) = ip_objFunc x" for node x
    by (simp add: checkNode_def Let_def)
  with assms show ?thesis
    by (auto simp: IP_init_def Let_def split: bind_splits if_splits)
qed

lemma solve_max_of_negated:
  "solve (IP_problem ''max'' (negate_terms ts) cs) =
     (case solve (IP_problem ''min'' ts cs) of None \<Rightarrow> None
      | Some r \<Rightarrow> Some (r\<lparr>ip_isMin := False, ip_extremum := dneg (ip_extremum r)\<rparr>))"
proof -
  have "ip_isMin (IP_problem ''min'' ts cs)" by (simp add: IP_problem_isMin)
  from solve_negate [OF this] show ?thesis
    by (simp add: IP_problem_negate [of "''max''" ts cs "''min''"])
qed

text \<open>
  C6. Negating every coefficient of the objective and switching the sense gives the
  same run of the solver: the same status, the same assignment and every other field
  the same, with the sense switched and the extremum negated; a run without a result
  stays without a result. A problem that is not a \<open>min\<close> problem is solved as the
  minimisation of its negated objective, which \<open>init\<close> stores, and \<open>solve\<close> returns the
  bound of the minimisation with its sign changed, the bound itself for a \<open>min\<close>
  problem.
\<close>

theorem negated_objective_switched_sense:
  "solve (IP_problem ''max'' (negate_terms ts) cs) =
     (case solve (IP_problem ''min'' ts cs) of None \<Rightarrow> None
      | Some r \<Rightarrow> Some (r\<lparr>ip_isMin := False, ip_extremum := dneg (ip_extremum r)\<rparr>)) \<and>
   solve (IP_problem ''min'' (negate_terms ts) cs) =
     (case solve (IP_problem ''max'' ts cs) of None \<Rightarrow> None
      | Some r \<Rightarrow> Some (r\<lparr>ip_isMin := True, ip_extremum := dneg (ip_extremum r)\<rparr>)) \<and>
   (IP_init ip0 = Some ip1 \<longrightarrow>
      ip_objFunc ip1 = (if ip_isMin ip0 then ip_objFunc ip0
                        else Linearform_negate (ip_objFunc ip0))) \<and>
   (solve ip0 = Some ip2 \<longrightarrow>
      ip_isMin ip2 = ip_isMin ip0 \<and>
      ip_extremum ip2 = (if ip_isMin ip0 then objValueUpperBound ip2
                         else dneg (objValueUpperBound ip2)))"
proof -
  let ?min = "solve (IP_problem ''min'' (negate_terms ts) cs)"
  let ?max = "solve (IP_problem ''max'' ts cs)"
  from solve_max_of_negated [of "negate_terms ts" cs]
  have e: "?max = (case ?min of None \<Rightarrow> None
      | Some r \<Rightarrow> Some (r\<lparr>ip_isMin := False, ip_extremum := dneg (ip_extremum r)\<rparr>))"
    by (simp add: negate_terms_negate_terms)
  have b: "?min = (case ?max of None \<Rightarrow> None
      | Some r \<Rightarrow> Some (r\<lparr>ip_isMin := True, ip_extremum := dneg (ip_extremum r)\<rparr>))"
  proof (cases ?min)
    case None
    with e show ?thesis by simp
  next
    case (Some r)
    from solve_result(1) [OF Some] have "ip_isMin r" by (simp add: IP_problem_isMin)
    then have "r\<lparr>ip_isMin := True\<rparr> = r" by simp
    with e Some show ?thesis by (simp add: dneg_dneg)
  qed
  from solve_max_of_negated [of ts cs] b show ?thesis
    by (auto dest: IP_init_objFunc solve_result)
qed

text \<open>
  \<open>max x\<close> and \<open>min -x\<close>, both subject to \<open>2 x \<le> 3\<close>: the assignment is \<open>x = 1\<close> for both,
  the extremum \<open>1\<close> for the first and \<open>-1\<close> for the second.
\<close>

theorem negated_objective_switched_sense_witness:
  "IP_init c5_ip = Some c5_queued \<and>
   ip_objFunc c5_queued = Linearform_negate (ip_objFunc c5_ip) \<and>
   solve c5_ip = Some (c5_done\<lparr>ip_extremum := Fin 1\<rparr>) \<and>
   solve (IP_problem ''min'' [(Fin (- 1), ''x'')] [([(Fin 2, ''x'')], ''<='', Fin 3)])
     = Some (c5_done\<lparr>ip_isMin := True, ip_extremum := Fin (- 1)\<rparr>) \<and>
   ip_solution c5_done = [Fin 1] \<and> \<not> ip_isMin c5_ip"
proof -
  have m: "\<not> ip_isMin c5_ip" by (simp add: c5_ip_def IP_problem_isMin)
  have s: "ip_solution c5_done = [Fin 1]" by (simp add: c5_done_def)
  have n: "negate_terms [(Fin 1, ''x'')] = [(Fin (- 1), ''x'')]"
    by (simp add: negate_terms_def)
  from negated_objective_switched_sense
    [of "[(Fin 1, ''x'')]" "[([(Fin 2, ''x'')], ''<='', Fin 3)]" c5_ip c5_queued
        "c5_done\<lparr>ip_extremum := Fin 1\<rparr>"]
    c5_ip_eval c5_solve_eval m s
  show ?thesis by (simp add: n c5_ip_def [symmetric])
qed

subsection \<open>Infeasibility and the artificial rows\<close>







lemma tab_is_wf: "tab_is t' t f \<Longrightarrow> wf_tab t'"
  by (simp add: tab_is_def)

lemma tab_is_refl: "wf_tab t \<Longrightarrow> tab_is t t (ent t)"
  by (simp add: tab_is_def)

lemma tab_is_trans:
  assumes "tab_is t1 t f" and "tab_is t2 t1 g"
  shows "tab_is t2 t g"
  using assms by (simp add: tab_is_def)

lemma tab_is_cong:
  assumes "tab_is t' t f" and "\<And>i j. i < rows t \<Longrightarrow> j < cols t \<Longrightarrow> f i j = g i j"
  shows "tab_is t' t g"
  using assms by (simp add: tab_is_def)






































subsection \<open>The order of the node queue\<close>

lemma dle_trans: "dle a b \<Longrightarrow> dle b c \<Longrightarrow> dle a c"
  by (cases a; cases b; cases c) simp_all

lemma not_dlt_iff_dle: "a \<noteq> NaN \<Longrightarrow> b \<noteq> NaN \<Longrightarrow> (\<not> dlt b a) = dle a b"
  by (cases a; cases b) auto

lemma dle_refl: "a \<noteq> NaN \<Longrightarrow> dle a a"
  by (cases a) simp_all

lemma dlt_imp_dle: "dlt a b \<Longrightarrow> dle a b"
  by (cases a; cases b) simp_all

lemma swap_through_hole:
  assumes "h < length xs" "p < length xs" "p \<noteq> h"
  shows "mset (xs[h := xs ! p, p := v]) = mset (xs[h := v])"
proof -
  let ?zs = "xs[h := v]"
  from assms have "xs[h := xs ! p, p := v] = ?zs[h := ?zs ! p, p := ?zs ! h]"
    by simp
  moreover from assms have "mset (?zs[h := ?zs ! p, p := ?zs ! h]) = mset ?zs"
    by (intro mset_swap) simp_all
  ultimately show ?thesis by simp
qed

lemma push_heap_loop_heap:
  assumes "heap_but xs n hole" and "lowerBound v \<noteq> NaN"
    and "\<forall>c. 0 < c \<and> c < n \<and> (c - 1) div 2 = hole \<longrightarrow>
           dle (lowerBound v) (lowerBound (xs ! c))"
  shows "heap_upto (push_heap_loop cmp xs hole 0 v) n \<and>
         length (push_heap_loop cmp xs hole 0 v) = length xs \<and>
         (\<forall>i\<ge>n. push_heap_loop cmp xs hole 0 v ! i = xs ! i) \<and>
         mset (push_heap_loop cmp xs hole 0 v) = mset (xs[hole := v])"
  using assms
proof (induction hole arbitrary: xs rule: less_induct)
  case (less hole)
  let ?p = "(hole - 1) div 2"
  let ?K = "\<lambda>i. lowerBound (xs ! i)"
  from less.prems(1) have n: "n \<le> length xs" "hole < n"
    and nn: "\<And>i. i < n \<Longrightarrow> ?K i \<noteq> NaN"
    and a: "\<And>i. 0 < i \<Longrightarrow> i < n \<Longrightarrow> i \<noteq> hole \<Longrightarrow> (i - 1) div 2 \<noteq> hole \<Longrightarrow>
              dle (?K ((i - 1) div 2)) (?K i)"
    and c: "\<And>c. 0 < c \<Longrightarrow> c < n \<Longrightarrow> (c - 1) div 2 = hole \<Longrightarrow> 0 < hole \<Longrightarrow>
              dle (?K ?p) (?K c)"
    by (simp_all add: heap_but_def)
  from less.prems(3) have b: "\<And>c. 0 < c \<Longrightarrow> c < n \<Longrightarrow> (c - 1) div 2 = hole \<Longrightarrow>
              dle (lowerBound v) (?K c)"
    by simp
  note vn = less.prems(2)
  show ?case
  proof (cases "0 < hole \<and> cmp (xs ! ?p) v")
    case False
    then have e: "push_heap_loop cmp xs hole 0 v = xs[hole := v]"
      by (subst push_heap_loop.simps) (auto simp: Let_def)
    have "dle (lowerBound (xs[hole := v] ! ((i - 1) div 2))) (lowerBound (xs[hole := v] ! i))"
      if i: "0 < i" "i < n" for i
    proof (cases "i = hole")
      case True
      with i have h: "0 < hole" by simp
      then have ph: "?p \<noteq> hole" "?p < n" using n by arith+
      from False h have "\<not> dlt (lowerBound v) (?K ?p)" by (simp add: cmp_def)
      with nn [OF ph(2)] vn have "dle (?K ?p) (lowerBound v)"
        by (simp add: not_dlt_iff_dle)
      with True ph n show ?thesis by simp
    next
      case ih: False
      show ?thesis
      proof (cases "(i - 1) div 2 = hole")
        case True
        with b [OF i True] ih n i show ?thesis by simp
      next
        case False
        with a [OF i ih False] ih show ?thesis by simp
      qed
    qed
    moreover have "lowerBound (xs[hole := v] ! i) \<noteq> NaN" if "i < n" for i
      using that n nn vn by (cases "i = hole") simp_all
    ultimately have "heap_upto (xs[hole := v]) n"
      using n by (simp add: heap_upto_def)
    with e n show ?thesis by simp
  next
    case True
    then have h: "0 < hole" and lt: "dlt (lowerBound v) (?K ?p)"
      by (simp_all add: cmp_def)
    from h n have ph: "?p < hole" "?p < n" "?p < length xs" by arith+
    let ?xs = "xs[hole := xs ! ?p]"
    let ?K' = "\<lambda>i. lowerBound (?xs ! i)"
    from True have e: "push_heap_loop cmp xs hole 0 v = push_heap_loop cmp ?xs ?p 0 v"
      by (subst push_heap_loop.simps) (auto simp: Let_def)
    have vp: "dle (lowerBound v) (?K ?p)" using lt by (rule dlt_imp_dle)
    have nn': "?K' i \<noteq> NaN" if "i < n" for i
      using that n nn ph by (cases "i = hole") simp_all
    have a': "dle (?K' ((i - 1) div 2)) (?K' i)"
      if i: "0 < i" "i < n" "i \<noteq> ?p" "(i - 1) div 2 \<noteq> ?p" for i
    proof -
      from i have ih: "i \<noteq> hole" by auto
      show ?thesis
      proof (cases "(i - 1) div 2 = hole")
        case True
        from c [OF i(1,2) True h] True ih n show ?thesis by simp
      next
        case False
        from a [OF i(1,2) ih False] False ih show ?thesis by simp
      qed
    qed
    have pc: "dle (?K ?p) (?K' c)" if cc: "0 < c" "c < n" "(c - 1) div 2 = ?p" for c
    proof (cases "c = hole")
      case True
      with n nn [OF ph(2)] show ?thesis by (simp add: dle_refl)
    next
      case False
      from cc ph have "(c - 1) div 2 \<noteq> hole" by simp
      from a [OF cc(1,2) False this] cc False show ?thesis by simp
    qed
    have b': "dle (lowerBound v) (?K' c)" if cc: "0 < c" "c < n" "(c - 1) div 2 = ?p" for c
      using vp pc [OF cc] by (rule dle_trans)
    have c': "dle (?K' ((?p - 1) div 2)) (?K' c)"
      if cc: "0 < c" "c < n" "(c - 1) div 2 = ?p" "0 < ?p" for c
    proof -
      from cc(4) ph have g: "(?p - 1) div 2 \<noteq> hole" "?p \<noteq> hole" by arith+
      from a [OF cc(4) ph(2) g(2) g(1)] have "dle (?K ((?p - 1) div 2)) (?K ?p)" .
      from this pc [OF cc(1,2,3)] have "dle (?K ((?p - 1) div 2)) (?K' c)" by (rule dle_trans)
      with g show ?thesis by simp
    qed
    have hb: "heap_but ?xs n ?p"
      unfolding heap_but_def
    proof (intro conjI allI impI)
      show "n \<le> length ?xs" using n by simp
      show "?p < n" by (rule ph(2))
      show "?K' i \<noteq> NaN" if "i < n" for i using that by (rule nn')
      show "dle (?K' ((i - 1) div 2)) (?K' i)"
        if "0 < i \<and> i < n \<and> i \<noteq> ?p \<and> (i - 1) div 2 \<noteq> ?p" for i
        using that a' by blast
      show "dle (?K' ((?p - 1) div 2)) (?K' c)"
        if "0 < c \<and> c < n \<and> (c - 1) div 2 = ?p \<and> 0 < ?p" for c
        using that c' by blast
    qed
    from less.IH [OF ph(1) hb vn] b'
    have r: "heap_upto (push_heap_loop cmp ?xs ?p 0 v) n \<and>
         length (push_heap_loop cmp ?xs ?p 0 v) = length ?xs \<and>
         (\<forall>i\<ge>n. push_heap_loop cmp ?xs ?p 0 v ! i = ?xs ! i) \<and>
         mset (push_heap_loop cmp ?xs ?p 0 v) = mset (?xs[?p := v])"
      by simp
    from n ph have "mset (?xs[?p := v]) = mset (xs[hole := v])"
      by (intro swap_through_hole) simp_all
    with r e n show ?thesis by simp
  qed
qed


lemma adjust_heap_loop_heap:
  assumes "heap_but xs n hole"
  shows "case adjust_heap_loop cmp xs hole hole n of (xs1, h1, s1) \<Rightarrow>
           s1 = h1 \<and> heap_but xs1 n h1 \<and> length xs1 = length xs \<and>
           \<not> h1 < (n - 1) div 2 \<and> (\<forall>i\<ge>n. xs1 ! i = xs ! i) \<and>
           (\<forall>v. mset (xs1[h1 := v]) = mset (xs[hole := v]))"
  using assms
proof (induction "n - hole" arbitrary: xs hole rule: less_induct)
  case less
  let ?K = "\<lambda>i. lowerBound (xs ! i)"
  from less.prems have n: "n \<le> length xs" "hole < n"
    and nn: "\<And>i. i < n \<Longrightarrow> ?K i \<noteq> NaN"
    and a: "\<And>i. 0 < i \<Longrightarrow> i < n \<Longrightarrow> i \<noteq> hole \<Longrightarrow> (i - 1) div 2 \<noteq> hole \<Longrightarrow>
              dle (?K ((i - 1) div 2)) (?K i)"
    and c: "\<And>c. 0 < c \<Longrightarrow> c < n \<Longrightarrow> (c - 1) div 2 = hole \<Longrightarrow> 0 < hole \<Longrightarrow>
              dle (?K ((hole - 1) div 2)) (?K c)"
    by (simp_all add: heap_but_def)
  show ?case
  proof (cases "hole < (n - 1) div 2")
    case False
    then have "adjust_heap_loop cmp xs hole hole n = (xs, hole, hole)"
      by (subst adjust_heap_loop.simps) simp
    with False less.prems show ?thesis by simp
  next
    case True
    let ?r = "2 * (hole + 1)"
    let ?l = "?r - 1"
    define k where "k = (if cmp (xs ! ?r) (xs ! ?l) then ?l else ?r)"
    define w where "w = (if cmp (xs ! ?r) (xs ! ?l) then ?r else ?l)"
    from True have rn: "?r < n" "?l < n" by arith+
    have k: "k < n" "hole < k" "(k - 1) div 2 = hole" "0 < k"
      using rn by (auto simp: k_def)
    have w: "w < n"
      using rn by (auto simp: w_def)
    have ko: "dle (?K k) (?K w)"
    proof (cases "cmp (xs ! ?r) (xs ! ?l)")
      case True
      then have "dlt (?K ?l) (?K ?r)" by (simp add: cmp_def)
      then have "dle (?K ?l) (?K ?r)" by (rule dlt_imp_dle)
      with True show ?thesis by (simp add: k_def w_def)
    next
      case False
      then have "\<not> dlt (?K ?l) (?K ?r)" by (simp add: cmp_def)
      with nn [OF rn(1)] nn [OF rn(2)] have "dle (?K ?r) (?K ?l)"
        by (simp add: not_dlt_iff_dle)
      with False show ?thesis by (simp add: k_def w_def)
    qed
    have children: "i = k \<or> i = w" if "0 < i" "(i - 1) div 2 = hole" for i
    proof -
      from that have "i = ?l \<or> i = ?r" by arith
      then show ?thesis by (auto simp: k_def w_def)
    qed
    let ?xs = "xs[hole := xs ! k]"
    let ?K' = "\<lambda>i. lowerBound (?xs ! i)"
    from True have e: "adjust_heap_loop cmp xs hole hole n = adjust_heap_loop cmp ?xs k k n"
      by (subst adjust_heap_loop.simps) (simp add: Let_def k_def)
    have nn': "?K' i \<noteq> NaN" if "i < n" for i
      using that n nn k by (cases "i = hole") simp_all
    have a': "dle (?K' ((i - 1) div 2)) (?K' i)"
      if i: "0 < i" "i < n" "i \<noteq> k" "(i - 1) div 2 \<noteq> k" for i
    proof (cases "i = hole")
      case True
      with i have h: "0 < hole" by simp
      then have "(hole - 1) div 2 \<noteq> hole" by arith
      with c [OF k(4) k(1) k(3) h] True n show ?thesis by simp
    next
      case ih: False
      show ?thesis
      proof (cases "(i - 1) div 2 = hole")
        case True
        from children [OF i(1) True] i(3) have "i = w" by simp
        with ko True ih n show ?thesis by simp
      next
        case False
        from a [OF i(1,2) ih False] ih False show ?thesis by simp
      qed
    qed
    have c': "dle (?K' ((k - 1) div 2)) (?K' c)"
      if cc: "0 < c" "c < n" "(c - 1) div 2 = k" for c
    proof -
      from cc k have ch: "c \<noteq> hole" "(c - 1) div 2 \<noteq> hole" by arith+
      from a [OF cc(1,2) ch] cc(3) have "dle (?K k) (?K c)" by simp
      with ch k n show ?thesis by simp
    qed
    have hb: "heap_but ?xs n k"
      unfolding heap_but_def
    proof (intro conjI allI impI)
      show "n \<le> length ?xs" using n by simp
      show "k < n" by (rule k(1))
      show "?K' i \<noteq> NaN" if "i < n" for i using that by (rule nn')
      show "dle (?K' ((i - 1) div 2)) (?K' i)"
        if "0 < i \<and> i < n \<and> i \<noteq> k \<and> (i - 1) div 2 \<noteq> k" for i
        using that a' by blast
      show "dle (?K' ((k - 1) div 2)) (?K' c)"
        if "0 < c \<and> c < n \<and> (c - 1) div 2 = k \<and> 0 < k" for c
        using that c' by blast
    qed
    from k have "n - k < n - hole" by arith
    from less.hyps [OF this hb]
    have r: "case adjust_heap_loop cmp ?xs k k n of (xs1, h1, s1) \<Rightarrow>
           s1 = h1 \<and> heap_but xs1 n h1 \<and> length xs1 = length ?xs \<and>
           \<not> h1 < (n - 1) div 2 \<and> (\<forall>i\<ge>n. xs1 ! i = ?xs ! i) \<and>
           (\<forall>v. mset (xs1[h1 := v]) = mset (?xs[k := v]))" .
    have "mset (?xs[k := v]) = mset (xs[hole := v])" for v
      using n k by (intro swap_through_hole) simp_all
    with r e n show ?thesis by (auto split: prod.splits)
  qed
qed


lemma adjust_heap_heap:
  assumes "heap_but xs n 0" and "lowerBound v \<noteq> NaN"
  shows "heap_upto (adjust_heap cmp xs 0 n v) n \<and>
         length (adjust_heap cmp xs 0 n v) = length xs \<and>
         (\<forall>i\<ge>n. adjust_heap cmp xs 0 n v ! i = xs ! i) \<and>
         mset (adjust_heap cmp xs 0 n v) = mset (xs[0 := v])"
proof -
  obtain xs1 h1 s1 where l: "adjust_heap_loop cmp xs 0 0 n = (xs1, h1, s1)"
    by (cases "adjust_heap_loop cmp xs 0 0 n")
  from adjust_heap_loop_heap [OF assms(1)] l
  have s1: "s1 = h1" and hb: "heap_but xs1 n h1" and len: "length xs1 = length xs"
    and leaf: "\<not> h1 < (n - 1) div 2" and rest: "\<forall>i\<ge>n. xs1 ! i = xs ! i"
    and ms: "\<And>v. mset (xs1[h1 := v]) = mset (xs[0 := v])"
    by simp_all
  let ?K = "\<lambda>i. lowerBound (xs1 ! i)"
  from hb have n: "n \<le> length xs1" "h1 < n"
    and nn: "\<And>i. i < n \<Longrightarrow> ?K i \<noteq> NaN"
    and a: "\<And>i. 0 < i \<Longrightarrow> i < n \<Longrightarrow> i \<noteq> h1 \<Longrightarrow> (i - 1) div 2 \<noteq> h1 \<Longrightarrow>
              dle (?K ((i - 1) div 2)) (?K i)"
    and c: "\<And>c. 0 < c \<Longrightarrow> c < n \<Longrightarrow> (c - 1) div 2 = h1 \<Longrightarrow> 0 < h1 \<Longrightarrow>
              dle (?K ((h1 - 1) div 2)) (?K c)"
    by (simp_all add: heap_but_def)
  show ?thesis
  proof (cases "even n \<and> h1 = (n - 2) div 2")
    case True
    let ?l = "2 * (h1 + 1) - 1"
    let ?xs = "xs1[h1 := xs1 ! ?l]"
    let ?K' = "\<lambda>i. lowerBound (?xs ! i)"
    from True obtain b where nb: "n = 2 * b" by (auto elim: evenE)
    from n nb have b0: "0 < b" by simp
    from True nb have "h1 = (2 * b - 2) div 2" by simp
    also have "\<dots> = b - 1" by arith
    finally have h1b: "h1 = b - 1" .
    from b0 h1b have lb: "?l = 2 * b - 1" by simp
    from nb b0 h1b have ln: "?l < n" "h1 < ?l" "(?l - 1) div 2 = h1" "0 < ?l"
      unfolding lb by arith+
    from True l s1 have e: "adjust_heap cmp xs 0 n v = push_heap_loop cmp ?xs ?l 0 v"
      by (simp add: adjust_heap_def Let_def)
    have nn': "?K' i \<noteq> NaN" if "i < n" for i
      using that n nn ln by (cases "i = h1") simp_all
    have a': "dle (?K' ((i - 1) div 2)) (?K' i)"
      if i: "0 < i" "i < n" "i \<noteq> ?l" "(i - 1) div 2 \<noteq> ?l" for i
    proof (cases "i = h1")
      case True
      with i have h: "0 < h1" by simp
      then have "(h1 - 1) div 2 \<noteq> h1" by arith
      with c [OF ln(4) ln(1) ln(3) h] True n show ?thesis by simp
    next
      case ih: False
      from i(1,2,3) have "(i - 1) div 2 \<noteq> h1" unfolding lb nb h1b by arith
      from a [OF i(1,2) ih this] ih this show ?thesis by simp
    qed
    have none: False if "0 < c" "c < n" "(c - 1) div 2 = ?l" for c
      using that b0 unfolding lb nb by arith
    have hb': "heap_but ?xs n ?l"
      unfolding heap_but_def
    proof (intro conjI allI impI)
      show "n \<le> length ?xs" using n by simp
      show "?l < n" by (rule ln(1))
      show "?K' i \<noteq> NaN" if "i < n" for i using that by (rule nn')
      show "dle (?K' ((i - 1) div 2)) (?K' i)"
        if "0 < i \<and> i < n \<and> i \<noteq> ?l \<and> (i - 1) div 2 \<noteq> ?l" for i
        using that a' by blast
      show "dle (?K' ((?l - 1) div 2)) (?K' c)"
        if "0 < c \<and> c < n \<and> (c - 1) div 2 = ?l \<and> 0 < ?l" for c
        using that none by blast
    qed
    have b': "\<forall>c. 0 < c \<and> c < n \<and> (c - 1) div 2 = ?l \<longrightarrow>
           dle (lowerBound v) (lowerBound (?xs ! c))"
      using none by blast
    from push_heap_loop_heap [OF hb' assms(2) b']
    have r: "heap_upto (push_heap_loop cmp ?xs ?l 0 v) n \<and>
         length (push_heap_loop cmp ?xs ?l 0 v) = length ?xs \<and>
         (\<forall>i\<ge>n. push_heap_loop cmp ?xs ?l 0 v ! i = ?xs ! i) \<and>
         mset (push_heap_loop cmp ?xs ?l 0 v) = mset (?xs[?l := v])" .
    from n ln have "mset (?xs[?l := v]) = mset (xs1[h1 := v])"
      by (intro swap_through_hole) simp_all
    with r e len rest n ms [of v] show ?thesis by simp
  next
    case False
    with l s1 have e: "adjust_heap cmp xs 0 n v = push_heap_loop cmp xs1 h1 0 v"
      by (auto simp: adjust_heap_def Let_def)
    have none: False if cc: "0 < c" "c < n" "(c - 1) div 2 = h1" for c
    proof (cases "even n")
      case True
      then obtain b where nb: "n = 2 * b" by (auto elim: evenE)
      have "(2 * b - 1) div 2 = b - 1" "(2 * b - 2) div 2 = b - 1" by arith+
      with leaf False True nb have "b - 1 \<le> h1" "h1 \<noteq> b - 1" by simp_all
      then have "b \<le> h1" by arith
      with cc nb show False by arith
    next
      case odd: False
      then obtain b where nb: "n = 2 * b + 1" by (auto elim: oddE)
      from leaf nb have "b \<le> h1" by simp
      with cc nb show False by arith
    qed
    then have b': "\<forall>c. 0 < c \<and> c < n \<and> (c - 1) div 2 = h1 \<longrightarrow>
           dle (lowerBound v) (lowerBound (xs1 ! c))"
      by blast
    from push_heap_loop_heap [OF hb assms(2) b'] e len rest ms [of v]
    show ?thesis by simp
  qed
qed


lemma heap_upto_butlast:
  assumes "heap_upto ys (length ys - 1)"
  shows "heap_upto (butlast ys) (length (butlast ys))"
proof -
  let ?n = "length ys - 1"
  from assms have nn: "\<And>i. i < ?n \<Longrightarrow> lowerBound (ys ! i) \<noteq> NaN"
    and h: "\<And>i. 0 < i \<Longrightarrow> i < ?n \<Longrightarrow>
              dle (lowerBound (ys ! ((i - 1) div 2))) (lowerBound (ys ! i))"
    by (simp_all add: heap_upto_def)
  have d: "dle (lowerBound (butlast ys ! ((i - 1) div 2))) (lowerBound (butlast ys ! i))"
    if "0 < i" "i < ?n" for i
  proof -
    from that have "(i - 1) div 2 < ?n" by arith
    with that h [of i] show ?thesis by (simp add: nth_butlast)
  qed
  show ?thesis
    unfolding heap_upto_def
  proof (intro conjI allI impI)
    show "length (butlast ys) \<le> length (butlast ys)" by simp
    show "lowerBound (butlast ys ! i) \<noteq> NaN" if "i < length (butlast ys)" for i
      using that nn [of i] by (simp add: nth_butlast)
    show "dle (lowerBound (butlast ys ! ((i - 1) div 2))) (lowerBound (butlast ys ! i))"
      if "0 < i \<and> i < length (butlast ys)" for i
      using that d [of i] by simp
  qed
qed

lemma pq_pop_heap:
  assumes "heap_upto q (length q)"
  shows "heap_upto (pq_pop cmp q) (length (pq_pop cmp q))"
    and "q \<noteq> [] \<Longrightarrow> mset (pq_pop cmp q) = mset q - {#q ! 0#}"
proof -
  let ?last = "length q - 1"
  let ?xs = "q[?last := q ! 0]"
  have "heap_upto (pq_pop cmp q) (length (pq_pop cmp q)) \<and>
        (q \<noteq> [] \<longrightarrow> mset (pq_pop cmp q) = mset q - {#q ! 0#})"
  proof (cases "length q > 1")
    case False
    then have "q = [] \<or> (\<exists>x. q = [x])" by (cases q) auto
    then show ?thesis by (auto simp: pq_pop_def pop_heap_def heap_upto_def)
  next
    case True
    then have e: "pop_heap cmp q = adjust_heap cmp ?xs 0 ?last (q ! ?last)"
      by (simp add: pop_heap_def Let_def)
    from assms have nn: "\<And>i. i < length q \<Longrightarrow> lowerBound (q ! i) \<noteq> NaN"
      and h: "\<And>i. 0 < i \<Longrightarrow> i < length q \<Longrightarrow>
                dle (lowerBound (q ! ((i - 1) div 2))) (lowerBound (q ! i))"
      by (simp_all add: heap_upto_def)
    have hb: "heap_but ?xs ?last 0"
      unfolding heap_but_def
    proof (intro conjI allI impI)
      show "?last \<le> length ?xs" by simp
      show "0 < ?last" using True by simp
      show "lowerBound (?xs ! i) \<noteq> NaN" if "i < ?last" for i
        using that nn [of i] by simp
      show "dle (lowerBound (?xs ! ((i - 1) div 2))) (lowerBound (?xs ! i))"
        if "0 < i \<and> i < ?last \<and> i \<noteq> 0 \<and> (i - 1) div 2 \<noteq> 0" for i
      proof -
        from that have "(i - 1) div 2 < ?last" "i < length q" by arith+
        with that h [of i] show ?thesis by simp
      qed
      show "dle (lowerBound (?xs ! ((0 - 1) div 2))) (lowerBound (?xs ! c))"
        if "0 < c \<and> c < ?last \<and> (c - 1) div 2 = 0 \<and> (0::nat) < 0" for c
        using that by simp
    qed
    from True have vn: "lowerBound (q ! ?last) \<noteq> NaN" by (intro nn) simp
    let ?ys = "adjust_heap cmp ?xs 0 ?last (q ! ?last)"
    from adjust_heap_heap [OF hb vn]
    have r: "heap_upto ?ys ?last" "length ?ys = length q" "?ys ! ?last = ?xs ! ?last"
      and m: "mset ?ys = mset (?xs[0 := q ! ?last])"
      by simp_all
    from True have "mset (?xs[0 := q ! ?last]) = mset q"
      by (intro mset_swap) auto
    with m have mq: "mset ?ys = mset q" by simp
    from True r have ne: "?ys \<noteq> []" by auto
    from ne have "last ?ys = ?ys ! (length ?ys - 1)" by (rule last_conv_nth)
    also from r(2) have "\<dots> = ?ys ! ?last" by simp
    also from r(3) True have "\<dots> = q ! 0" by simp
    finally have la: "last ?ys = q ! 0" .
    from ne have "mset ?ys = add_mset (last ?ys) (mset (butlast ?ys))"
      by (metis append_butlast_last_id mset.simps(2) mset_append union_mset_add_mset_right
          add.right_neutral mset.simps(1))
    with mq la have "mset (butlast ?ys) = mset q - {#q ! 0#}"
      by (metis add_mset_remove_trivial)
    moreover from r have "heap_upto (butlast ?ys) (length (butlast ?ys))"
      by (intro heap_upto_butlast) simp
    ultimately show ?thesis by (simp add: pq_pop_def e)
  qed
  then show "heap_upto (pq_pop cmp q) (length (pq_pop cmp q))"
    and "q \<noteq> [] \<Longrightarrow> mset (pq_pop cmp q) = mset q - {#q ! 0#}"
    by simp_all
qed

lemma pq_push_heap:
  assumes "heap_upto q (length q)" and "lowerBound x \<noteq> NaN"
  shows "heap_upto (pq_push cmp x q) (length (pq_push cmp x q))"
    and "mset (pq_push cmp x q) = add_mset x (mset q)"
proof -
  let ?xs = "q @ [x]"
  let ?n = "length q"
  from assms have nn: "\<And>i. i < length q \<Longrightarrow> lowerBound (q ! i) \<noteq> NaN"
    and h: "\<And>i. 0 < i \<Longrightarrow> i < length q \<Longrightarrow>
              dle (lowerBound (q ! ((i - 1) div 2))) (lowerBound (q ! i))"
    by (simp_all add: heap_upto_def)
  have e: "pq_push cmp x q = push_heap_loop cmp ?xs ?n 0 x"
    by (simp add: pq_push_def push_heap_def)
  have none: False if "0 < c" "c < Suc ?n" "(c - 1) div 2 = ?n" for c
    using that by arith
  have hb: "heap_but ?xs (Suc ?n) ?n"
    unfolding heap_but_def
  proof (intro conjI allI impI)
    show "Suc ?n \<le> length ?xs" by simp
    show "?n < Suc ?n" by simp
    show "lowerBound (?xs ! i) \<noteq> NaN" if "i < Suc ?n" for i
      using that nn [of i] assms(2) by (cases "i = ?n") (simp_all add: nth_append)
    show "dle (lowerBound (?xs ! ((i - 1) div 2))) (lowerBound (?xs ! i))"
      if "0 < i \<and> i < Suc ?n \<and> i \<noteq> ?n \<and> (i - 1) div 2 \<noteq> ?n" for i
    proof -
      from that have "i < ?n" "(i - 1) div 2 < ?n" by arith+
      with that h [of i] show ?thesis by (simp add: nth_append)
    qed
    show "dle (lowerBound (?xs ! ((?n - 1) div 2))) (lowerBound (?xs ! c))"
      if "0 < c \<and> c < Suc ?n \<and> (c - 1) div 2 = ?n \<and> 0 < ?n" for c
      using that none by blast
  qed
  have b: "\<forall>c. 0 < c \<and> c < Suc ?n \<and> (c - 1) div 2 = ?n \<longrightarrow>
           dle (lowerBound x) (lowerBound (?xs ! c))"
    using none by blast
  from push_heap_loop_heap [OF hb assms(2) b]
  have r: "heap_upto (push_heap_loop cmp ?xs ?n 0 x) (Suc ?n)"
    "length (push_heap_loop cmp ?xs ?n 0 x) = Suc ?n"
    "mset (push_heap_loop cmp ?xs ?n 0 x) = mset (?xs[?n := x])"
    by simp_all
  from r(1,2) show "heap_upto (pq_push cmp x q) (length (pq_push cmp x q))"
    by (simp add: e)
  from r(3) show "mset (pq_push cmp x q) = add_mset x (mset q)"
    by (simp add: e)
qed

lemma heap_top_is_minimum:
  assumes "heap_upto q (length q)" and "i < length q"
  shows "dle (lowerBound (q ! 0)) (lowerBound (q ! i))"
  using assms(2)
proof (induction i rule: less_induct)
  case (less i)
  from assms(1) have nn: "\<And>i. i < length q \<Longrightarrow> lowerBound (q ! i) \<noteq> NaN"
    and h: "\<And>i. 0 < i \<Longrightarrow> i < length q \<Longrightarrow>
              dle (lowerBound (q ! ((i - 1) div 2))) (lowerBound (q ! i))"
    by (simp_all add: heap_upto_def)
  show ?case
  proof (cases "i = 0")
    case True
    with nn [OF less.prems] show ?thesis by (simp add: dle_refl)
  next
    case False
    then have p: "(i - 1) div 2 < i" by arith
    with less.prems have "(i - 1) div 2 < length q" by simp
    from less.IH [OF p this] h [OF _ less.prems] False show ?thesis
      by (auto intro: dle_trans)
  qed
qed

lemma is_heap_heap_upto:
  "(is_heap cmp q \<and> (\<forall>n\<in>set q. lowerBound n \<noteq> NaN)) = heap_upto q (length q)"
proof -
  have nn: "(\<forall>n\<in>set q. lowerBound n \<noteq> NaN) = (\<forall>i<length q. lowerBound (q ! i) \<noteq> NaN)"
    by (simp add: all_set_conv_all_nth)
  have "(\<forall>i<length q. lowerBound (q ! i) \<noteq> NaN) \<Longrightarrow> 0 < i \<Longrightarrow> i < length q \<Longrightarrow>
      (\<not> cmp (q ! ((i - 1) div 2)) (q ! i))
        = dle (lowerBound (q ! ((i - 1) div 2))) (lowerBound (q ! i))" for i
  proof -
    assume a: "\<forall>i<length q. lowerBound (q ! i) \<noteq> NaN" "0 < i" "i < length q"
    then have "(i - 1) div 2 < length q" by arith
    with a show ?thesis by (simp add: cmp_def not_dlt_iff_dle)
  qed
  then show ?thesis
    unfolding nn is_heap_def heap_upto_def list_all_iff by auto
qed


lemma queue_ok_heap_upto:
  "queue_ok q = (heap_upto q (length q) \<and> (\<forall>n\<in>set q. node_type n = LP_FEASIBLE))"
  unfolding queue_ok_def list_all_iff using is_heap_heap_upto [of q] by auto

lemma queue_ok_push:
  assumes "queue_ok q" and "lowerBound x \<noteq> NaN" and "node_type x = LP_FEASIBLE"
  shows "queue_ok (pq_push cmp x q)" and "mset (pq_push cmp x q) = add_mset x (mset q)"
proof -
  from assms(1) have h: "heap_upto q (length q)" and o: "\<forall>n\<in>set q. node_type n = LP_FEASIBLE"
    by (simp_all add: queue_ok_heap_upto)
  note r = pq_push_heap [OF h assms(2)]
  from r(2) show "mset (pq_push cmp x q) = add_mset x (mset q)" .
  then have "set_mset (mset (pq_push cmp x q)) = set_mset (add_mset x (mset q))" by simp
  then have "set (pq_push cmp x q) = insert x (set q)" by simp
  with o assms(3) r(1) show "queue_ok (pq_push cmp x q)" by (simp add: queue_ok_heap_upto)
qed

lemma queue_ok_pop:
  assumes "queue_ok q"
  shows "queue_ok (pq_pop cmp q)"
proof -
  from assms have h: "heap_upto q (length q)" and o: "\<forall>n\<in>set q. node_type n = LP_FEASIBLE"
    by (simp_all add: queue_ok_heap_upto)
  have "set (pq_pop cmp q) \<subseteq> set q"
  proof (cases "q = []")
    case True
    then show ?thesis by (simp add: pq_pop_def pop_heap_def)
  next
    case False
    from pq_pop_heap(2) [OF h False]
    have "set_mset (mset (pq_pop cmp q)) = set_mset (mset q - {#q ! 0#})" by simp
    then show ?thesis by (auto dest: in_diffD)
  qed
  with o pq_pop_heap(1) [OF h] show ?thesis by (auto simp: queue_ok_heap_upto)
qed

lemma queue_ok_top:
  assumes "queue_ok q" and "pq_top q = Some nd"
  shows "nd \<in> set q" and "\<forall>m\<in>set q. dle (lowerBound nd) (lowerBound m)"
    and "mset (pq_pop cmp q) = mset q - {#nd#}" and "node_type nd = LP_FEASIBLE"
proof -
  from assms(2) have ne: "q \<noteq> []" and t: "nd = q ! 0"
    by (auto simp: pq_top_def vget_def split: if_splits)
  from ne t show m: "nd \<in> set q" by simp
  from assms(1) have h: "heap_upto q (length q)" and o: "\<forall>n\<in>set q. node_type n = LP_FEASIBLE"
    by (simp_all add: queue_ok_heap_upto)
  from o m show "node_type nd = LP_FEASIBLE" by simp
  show "\<forall>m\<in>set q. dle (lowerBound nd) (lowerBound m)"
  proof
    fix m assume "m \<in> set q"
    then obtain i where "i < length q" "m = q ! i" by (auto simp: in_set_conv_nth)
    with heap_top_is_minimum [OF h] t show "dle (lowerBound nd) (lowerBound m)" by simp
  qed
  from pq_pop_heap(2) [OF h ne] t show "mset (pq_pop cmp q) = mset q - {#nd#}" by simp
qed

lemma queue_ok_checkNode:
  assumes "queue_ok (nodeQueue ip)"
  shows "queue_ok (nodeQueue (checkNode node ip))"
proof (cases "\<not> (node_type node = IP_FEASIBLE \<and> dlt (lowerBound node) (objValueUpperBound ip)) \<and>
    node_type node = LP_FEASIBLE \<and> dlt (lowerBound node) (objValueUpperBound ip)")
  case True
  then have "lowerBound node \<noteq> NaN" "node_type node = LP_FEASIBLE"
    by (cases "lowerBound node"; auto)+
  from queue_ok_push(1) [OF assms this] True show ?thesis
    by (simp add: checkNode_def Let_def)
next
  case False
  then have "nodeQueue (checkNode node ip) = nodeQueue ip"
    by (auto simp: checkNode_def Let_def)
  with assms show ?thesis by simp
qed

lemma queue_ok_init:
  assumes "nodeQueue ip = []" and "IP_init ip = Some ip1"
  shows "queue_ok (nodeQueue ip1)"
proof -
  have e: "queue_ok []" by (simp add: queue_ok_def is_heap_def)
  from assms(2) obtain root ipn where
    "ip1 = checkNode root ipn" "nodeQueue ipn = nodeQueue ip"
    by (auto simp: IP_init_def Let_def split: bind_splits if_splits)
  with assms(1) e queue_ok_checkNode [of ipn root] show ?thesis by simp
qed

lemma queue_ok_iteration:
  assumes "queue_ok (nodeQueue ip)" and "solve_iteration ip = Some ip2"
  shows "queue_ok (nodeQueue ip2)"
    and "\<exists>nd. pq_top (nodeQueue ip) = Some nd \<and>
           (\<forall>m\<in>set (nodeQueue ip). dle (lowerBound nd) (lowerBound m))"
proof -
  from assms(2) obtain nd l r where t: "pq_top (nodeQueue ip) = Some nd"
    and e: "ip2 = checkNode r (checkNode l (ip\<lparr>nodeQueue := pq_pop cmp (nodeQueue ip)\<rparr>))"
    by (auto simp: solve_iteration_def Let_def split: bind_splits)
  from queue_ok_pop [OF assms(1)]
  have "queue_ok (nodeQueue (ip\<lparr>nodeQueue := pq_pop cmp (nodeQueue ip)\<rparr>))" by simp
  then have "queue_ok (nodeQueue (checkNode l (ip\<lparr>nodeQueue := pq_pop cmp (nodeQueue ip)\<rparr>)))"
    by (rule queue_ok_checkNode)
  then show "queue_ok (nodeQueue ip2)" unfolding e by (rule queue_ok_checkNode)
  from queue_ok_top(2) [OF assms(1) t] t
  show "\<exists>nd. pq_top (nodeQueue ip) = Some nd \<and>
           (\<forall>m\<in>set (nodeQueue ip). dle (lowerBound nd) (lowerBound m))"
    by blast
qed

lemma queue_ok_loop:
  assumes "solve_loop ip = Some ip3" and "queue_ok (nodeQueue ip)"
  shows "queue_ok (nodeQueue ip3)"
  using assms
proof (induction ip ip3 rule: solve_loop.raw_induct [rotated, consumes 1, case_names step])
  case (step loop ip ip3)
  show ?case
  proof (cases "length (nodeQueue ip) > 0 \<and> ip_solutionType ip \<noteq> IP_UNBOUNDED")
    case False
    with step.hyps have "ip3 = ip" by (auto split: if_splits)
    with step.prems show ?thesis by simp
  next
    case True
    with step.hyps obtain mid where
      it: "solve_iteration ip = Some mid" and rest: "loop mid = Some ip3"
      by (auto split: bind_splits)
    from queue_ok_iteration(1) [OF step.prems it] have "queue_ok (nodeQueue mid)" .
    from step.IH [OF rest this] show ?thesis .
  qed
qed

lemma queue_ok_solve:
  assumes "nodeQueue ip0 = []" and "solve ip0 = Some ip4"
  shows "queue_ok (nodeQueue ip4)"
proof -
  from assms(2) obtain i1 i2 e where i: "IP_init ip0 = Some i1" and l: "solve_loop i1 = Some i2"
    and f: "ip4 = i2\<lparr>ip_extremum := e\<rparr>"
    by (auto simp: solve_def split: bind_splits)
  from queue_ok_loop [OF l queue_ok_init [OF assms(1) i]] f show ?thesis by simp
qed

text \<open>
  C7, as amended. The node queue of a solve is a heap for \<open>cmp\<close> of open nodes with no
  NaN among its lower bounds: it is so when empty, after \<open>init\<close>, after every \<open>push\<close>, \<open>pop\<close>,
  \<open>checkNode\<close> and iteration of the loop of \<open>solve\<close>, and so after the loop and after
  \<open>solve\<close>. On such a queue \<open>top\<close> is a queued
  node whose lower bound is at most that of every queued node, so each iteration
  expands a node of minimum lower bound; \<open>pop\<close> removes exactly that node and \<open>push\<close>
  adds exactly the pushed one. Nothing is said on the order among equal lower bounds.
\<close>

theorem pop_returns_minimum_lower_bound:
  "queue_ok [] \<and>
   (queue_ok q \<and> lowerBound x \<noteq> NaN \<and> node_type x = LP_FEASIBLE \<longrightarrow>
      queue_ok (pq_push cmp x q) \<and> mset (pq_push cmp x q) = add_mset x (mset q)) \<and>
   (queue_ok q \<longrightarrow> queue_ok (pq_pop cmp q)) \<and>
   (queue_ok q \<and> pq_top q = Some nd \<longrightarrow>
      nd \<in> set q \<and> node_type nd = LP_FEASIBLE \<and>
      (\<forall>m\<in>set q. dle (lowerBound nd) (lowerBound m)) \<and>
      mset (pq_pop cmp q) = mset q - {#nd#}) \<and>
   (queue_ok (nodeQueue ip) \<longrightarrow> queue_ok (nodeQueue (checkNode node ip))) \<and>
   (nodeQueue ip0 = [] \<and> IP_init ip0 = Some ip1 \<longrightarrow> queue_ok (nodeQueue ip1)) \<and>
   (queue_ok (nodeQueue ip) \<and> solve_iteration ip = Some ip2 \<longrightarrow>
      queue_ok (nodeQueue ip2) \<and>
      (\<exists>n. pq_top (nodeQueue ip) = Some n \<and>
           (\<forall>m\<in>set (nodeQueue ip). dle (lowerBound n) (lowerBound m)))) \<and>
   (queue_ok (nodeQueue ip) \<and> solve_loop ip = Some ip3 \<longrightarrow> queue_ok (nodeQueue ip3)) \<and>
   (nodeQueue ip0 = [] \<and> solve ip0 = Some ip4 \<longrightarrow> queue_ok (nodeQueue ip4))"
proof (intro conjI impI; (elim conjE)?)
  show "queue_ok []" by (simp add: queue_ok_def is_heap_def)
next
  assume a: "queue_ok q" "lowerBound x \<noteq> NaN" "node_type x = LP_FEASIBLE"
  from a show "queue_ok (pq_push cmp x q)" by (rule queue_ok_push(1))
  from a show "mset (pq_push cmp x q) = add_mset x (mset q)" by (rule queue_ok_push(2))
next
  assume "queue_ok q"
  then show "queue_ok (pq_pop cmp q)" by (rule queue_ok_pop)
next
  assume a: "queue_ok q" "pq_top q = Some nd"
  from a show "nd \<in> set q" by (rule queue_ok_top(1))
  from a show "node_type nd = LP_FEASIBLE" by (rule queue_ok_top(4))
  from a show "\<forall>m\<in>set q. dle (lowerBound nd) (lowerBound m)" by (rule queue_ok_top(2))
  from a show "mset (pq_pop cmp q) = mset q - {#nd#}" by (rule queue_ok_top(3))
next
  assume "queue_ok (nodeQueue ip)"
  then show "queue_ok (nodeQueue (checkNode node ip))" by (rule queue_ok_checkNode)
next
  assume "nodeQueue ip0 = []" "IP_init ip0 = Some ip1"
  then show "queue_ok (nodeQueue ip1)" by (rule queue_ok_init)
next
  assume a: "queue_ok (nodeQueue ip)" "solve_iteration ip = Some ip2"
  from a show "queue_ok (nodeQueue ip2)" by (rule queue_ok_iteration(1))
  from a show "\<exists>n. pq_top (nodeQueue ip) = Some n \<and>
           (\<forall>m\<in>set (nodeQueue ip). dle (lowerBound n) (lowerBound m))"
    by (rule queue_ok_iteration(2))
next
  assume "queue_ok (nodeQueue ip)" "solve_loop ip = Some ip3"
  then show "queue_ok (nodeQueue ip3)" by (rule queue_ok_loop [rotated])
next
  assume "nodeQueue ip0 = []" "solve ip0 = Some ip4"
  then show "queue_ok (nodeQueue ip4)" by (rule queue_ok_solve)
qed


lemmas ev_pq = pq_push_def pq_pop_def pq_top_def push_heap_def pop_heap_def adjust_heap_def
  push_heap_loop.simps adjust_heap_loop.simps cmp_def Let_def vget_def list_update_numeral
  queue_ok_def is_heap_def upt_conv_Cons c7_bound_def c7_node_def

text \<open>
  The theorem on the queue with the lower bounds 1, 3, 2: \<open>top\<close> is the node with bound
  1, pushing a node with bound 0 brings it to the front, \<open>pop\<close> leaves the bounds 2, 3.
  And on \<open>max x\<close> subject to \<open>2 x \<le> 3\<close>: the queue is empty at first, holds the
  relaxation after \<open>init\<close> and is empty after the one iteration.
\<close>

theorem pop_returns_minimum_lower_bound_witness:
  "queue_ok c7_queue \<and> pq_top c7_queue = Some (c7_bound 1) \<and>
   pq_push cmp (c7_bound 0) c7_queue = [c7_bound 0, c7_bound 1, c7_bound 2, c7_bound 3] \<and>
   queue_ok [c7_bound 0, c7_bound 1, c7_bound 2, c7_bound 3] \<and>
   pq_pop cmp c7_queue = [c7_bound 2, c7_bound 3] \<and>
   queue_ok [c7_bound 2, c7_bound 3] \<and>
   dle (lowerBound (c7_bound 1)) (lowerBound (c7_bound 3)) \<and>
   mset [c7_bound 2, c7_bound 3] = mset c7_queue - {#c7_bound 1#} \<and>
   nodeQueue c5_ip = [] \<and> IP_init c5_ip = Some c5_queued \<and>
   queue_ok (nodeQueue c5_queued) \<and>
   queue_ok (nodeQueue (checkNode (c7_bound 0) c5_queued)) \<and>
   solve_iteration c5_queued = Some c5_done \<and> queue_ok (nodeQueue c5_done) \<and>
   solve_loop c5_queued = Some c5_done \<and>
   solve c5_ip = Some (c5_done\<lparr>ip_extremum := Fin 1\<rparr>) \<and>
   queue_ok (nodeQueue (c5_done\<lparr>ip_extremum := Fin 1\<rparr>))"
proof -
  have q: "queue_ok c7_queue" by (simp add: c7_queue_def ev_pq)
  have x: "lowerBound (c7_bound 0) \<noteq> NaN" "node_type (c7_bound 0) = LP_FEASIBLE"
    by (simp_all add: c7_bound_def)
  have t: "pq_top c7_queue = Some (c7_bound 1)" by (simp add: c7_queue_def ev_pq)
  have pu: "pq_push cmp (c7_bound 0) c7_queue
      = [c7_bound 0, c7_bound 1, c7_bound 2, c7_bound 3]"
    by (simp add: c7_queue_def ev_pq)
  have po: "pq_pop cmp c7_queue = [c7_bound 2, c7_bound 3]"
    by (simp add: c7_queue_def ev_pq)
  have e: "nodeQueue c5_ip = []" by (simp add: c5_ip_def ev_ip Let_def)
  have k: "queue_ok (nodeQueue c5_queued)" by (simp add: c5_queued_def ev_pq)
  have m: "c7_bound 3 \<in> set c7_queue" by (simp add: c7_queue_def)
  note th = pop_returns_minimum_lower_bound
    [of c7_queue "c7_bound 0" "c7_bound 1" c5_queued "c7_bound 0" c5_ip c5_queued c5_done
        c5_done "c5_done\<lparr>ip_extremum := Fin 1\<rparr>"]
  from th q x have "queue_ok (pq_push cmp (c7_bound 0) c7_queue)" by blast
  then have a1: "queue_ok [c7_bound 0, c7_bound 1, c7_bound 2, c7_bound 3]"
    by (simp only: pu)
  from th q have "queue_ok (pq_pop cmp c7_queue)" by blast
  then have a2: "queue_ok [c7_bound 2, c7_bound 3]" by (simp only: po)
  from th q t m have a3: "dle (lowerBound (c7_bound 1)) (lowerBound (c7_bound 3))" by blast
  from th q t have "mset (pq_pop cmp c7_queue) = mset c7_queue - {#c7_bound 1#}" by blast
  then have a4: "mset [c7_bound 2, c7_bound 3] = mset c7_queue - {#c7_bound 1#}"
    by (simp only: po)
  from th k have a7: "queue_ok (nodeQueue (checkNode (c7_bound 0) c5_queued))" by blast
  from th k c5_iteration_eval have a5: "queue_ok (nodeQueue c5_done)" by blast
  from th e c5_solve_eval
  have a6: "queue_ok (nodeQueue (c5_done\<lparr>ip_extremum := Fin 1\<rparr>))" by blast
  from q t pu a1 po a2 a3 a4 e c5_ip_eval k a7 c5_iteration_eval a5 c5_loop_eval c5_solve_eval
    a6
  show ?thesis by (intro conjI)
qed

text \<open>
  C7 as stated fails for equal lower bounds. Six nodes with the same bound are pushed
  in the order 1 to 6 the way the loop of \<open>solve\<close> does it, two pushes after each pop.
  The pops return the nodes 1, 2 and 3, and then the front of the queue is node 5
  while node 4, pushed before it, is still queued.
\<close>

theorem equal_bounds_not_fifo_counterexample:
  "pq_pop cmp (pq_push cmp (c7_node 2) (pq_push cmp (c7_node 1) [])) = [c7_node 2] \<and>
   pq_pop cmp (pq_push cmp (c7_node 4) (pq_push cmp (c7_node 3) [c7_node 2]))
     = [c7_node 3, c7_node 4] \<and>
   pq_push cmp (c7_node 6) (pq_push cmp (c7_node 5) [c7_node 3, c7_node 4])
     = [c7_node 3, c7_node 4, c7_node 5, c7_node 6] \<and>
   pq_pop cmp [c7_node 3, c7_node 4, c7_node 5, c7_node 6]
     = [c7_node 5, c7_node 4, c7_node 6] \<and>
   pq_top [c7_node 5, c7_node 4, c7_node 6] = Some (c7_node 5) \<and>
   lowerBound (c7_node 4) = lowerBound (c7_node 5) \<and> c7_node 4 \<noteq> c7_node 5"
  by (simp add: ev_pq)

end
